theory Spec2Isabelle
  imports Main
begin

section \<open>The people tracker of \<^verbatim>\<open>tracker.py\<close>\<close>

text \<open>
  A shallow embedding of the class \<^verbatim>\<open>PeopleTracker\<close>. The engine's attributes are a
  record, the dictionary \<^verbatim>\<open>tracked_objects\<close> is an association list in insertion order
  (the order in which Python iterates a dict), and each method takes the engine and returns
  the engine it leaves behind. The drawing calls of OpenCV only paint the frame and are left
  out; of the frame only its height and width are read. Coordinates, counters and frame
  numbers are integers without bound, as Python's are; pixel coordinates stay far from the
  range where the 64-bit integers the detector hands over would differ.
\<close>

subsection \<open>Data\<close>

text \<open>The values of a track's \<^verbatim>\<open>'lane'\<close> entry: \<^verbatim>\<open>'unknown'\<close>, \<^verbatim>\<open>'enter'\<close>, \<^verbatim>\<open>'exit'\<close>.\<close>

datatype lane = Unknown | Enter | Exit

text \<open>
  The \<^verbatim>\<open>'status'\<close> entry. The source only ever writes \<^verbatim>\<open>'active'\<close>, and compares with it in
  the matching loop; any other string is \<open>Inactive\<close>.
\<close>

datatype status = Active | Inactive

text \<open>
  The attribute \<^verbatim>\<open>mode\<close> is a string compared with two literals; every other string is
  \<open>OtherMode\<close>.
\<close>

datatype mode = EagleEye | LaneCounter | OtherMode

type_synonym bbox = "int \<times> int \<times> int \<times> int"
type_synonym point = "int \<times> int"
type_synonym detection = "int \<times> int \<times> int \<times> int \<times> string"

record track =
  bbox :: bbox
  centroid :: point
  lane :: lane
  status :: status
  counted_in :: bool
  counted_out :: bool
  last_frame_id :: int

type_synonym tracks = "(int \<times> track) list"

record tracker =
  mode :: mode
  lane_split_x :: "int option"
  entry_y_threshold :: "int option"
  exit_y_threshold :: "int option"
  tracked_objects :: tracks
  next_id :: int
  in_count :: int
  out_count :: int
  frame_id :: int
  max_dist_sq :: int
  stale_frame_threshold :: int

text \<open>\<^verbatim>\<open>__init__\<close>\<close>

definition init :: "mode \<Rightarrow> tracker" where
  "init m = \<lparr> mode = m, lane_split_x = None, entry_y_threshold = None,
     exit_y_threshold = None, tracked_objects = [], next_id = 0, in_count = 0,
     out_count = 0, frame_id = 0, max_dist_sq = 5000, stale_frame_threshold = 30 \<rparr>"

subsection \<open>Dictionary operations on an insertion-ordered dict\<close>

text \<open>\<^verbatim>\<open>d[k] = v\<close>: an existing key keeps its place, a new key goes to the end.\<close>

primrec dict_set :: "int \<Rightarrow> track \<Rightarrow> tracks \<Rightarrow> tracks" where
  "dict_set k v [] = [(k, v)]"
| "dict_set k v (p # ps) = (if fst p = k then (k, v) # ps else p # dict_set k v ps)"

text \<open>\<^verbatim>\<open>d[k][field] = x\<close> for a key that is present: the entry is changed in place.\<close>

primrec dict_modify :: "int \<Rightarrow> (track \<Rightarrow> track) \<Rightarrow> tracks \<Rightarrow> tracks" where
  "dict_modify k f [] = []"
| "dict_modify k f (p # ps) =
     (if fst p = k then (k, f (snd p)) # ps else p # dict_modify k f ps)"

text \<open>\<^verbatim>\<open>del d[k]\<close>\<close>

definition dict_del :: "int \<Rightarrow> tracks \<Rightarrow> tracks" where
  "dict_del k d = filter (\<lambda>p. fst p \<noteq> k) d"

definition keys :: "tracks \<Rightarrow> int list" where
  "keys d = map fst d"

subsection \<open>Geometry\<close>

text \<open>\<^verbatim>\<open>_get_centroid\<close>: Python's \<^verbatim>\<open>//\<close> on integers is floor division, as \<open>div\<close> on \<open>int\<close>.\<close>

fun get_centroid :: "bbox \<Rightarrow> point" where
  "get_centroid (x1, y1, x2, y2) = ((x1 + x2) div 2, (y1 + y2) div 2)"

text \<open>\<^verbatim>\<open>_distance_sq\<close>\<close>

definition distance_sq :: "point \<Rightarrow> point \<Rightarrow> int" where
  "distance_sq p1 p2 = (fst p1 - fst p2)\<^sup>2 + (snd p1 - snd p2)\<^sup>2"

subsection \<open>\<^verbatim>\<open>reset_counts\<close>\<close>

definition reset_counts :: "tracker \<Rightarrow> tracker" where
  "reset_counts s = s\<lparr> in_count := 0, out_count := 0, tracked_objects := [],
     next_id := 0, frame_id := 0 \<rparr>"

subsection \<open>\<^verbatim>\<open>update\<close>\<close>

text \<open>
  Lines 63 to 69: the lazy initialisation of the boundary configuration. The frame's
  height and width are natural numbers (the shape of an array). \<^verbatim>\<open>int(h * 0.9)\<close> multiplies
  by the double nearest to 0.9, which lies above 0.9 by less than \<open>2\<^sup>-\<^sup>5\<^sup>4\<close> of it, and
  truncates; for a height below \<open>2\<^sup>5\<^sup>0\<close> this is \<open>9 * h div 10\<close>, and likewise
  \<^verbatim>\<open>int(h * 0.1)\<close> is \<open>h div 10\<close>.
\<close>

definition init_thresholds :: "tracker \<Rightarrow> nat \<Rightarrow> nat \<Rightarrow> tracker" where
  "init_thresholds s h w =
     (if mode s = LaneCounter then
        s\<lparr> lane_split_x :=
             (case lane_split_x s of None \<Rightarrow> Some (int w div 2) | Some v \<Rightarrow> Some v),
           entry_y_threshold :=
             (case entry_y_threshold s of None \<Rightarrow> Some (9 * int h div 10) | Some v \<Rightarrow> Some v),
           exit_y_threshold :=
             (case exit_y_threshold s of None \<Rightarrow> Some (int h div 10) | Some v \<Rightarrow> Some v) \<rparr>
      else s)"

text \<open>Line 80: the detections whose label is \<^verbatim>\<open>'person'\<close>.\<close>

definition persons :: "detection list \<Rightarrow> detection list" where
  "persons detections = filter (\<lambda>d. snd (snd (snd (snd d))) = ''person'') detections"

text \<open>
  Lines 88 to 97: the loop over \<^verbatim>\<open>tracked_objects.items()\<close> with its two variables
  \<^verbatim>\<open>matched_id\<close> and \<^verbatim>\<open>min_dist\<close>. \<^verbatim>\<open>min_dist\<close> starts as \<^verbatim>\<open>float('inf')\<close>, here \<open>None\<close>,
  below which every integer lies.
\<close>

fun match_loop :: "int \<Rightarrow> point \<Rightarrow> tracks \<Rightarrow> int option \<times> int option \<Rightarrow> int option \<times> int option"
  where
  "match_loop gate c [] acc = acc"
| "match_loop gate c ((obj_id, obj_data) # rest) (matched_id, min_dist) =
     (if status obj_data = Active then
        (let dist = distance_sq c (centroid obj_data) in
         if (case min_dist of None \<Rightarrow> True | Some m \<Rightarrow> dist < m) \<and> dist < gate
         then match_loop gate c rest (Some obj_id, Some dist)
         else match_loop gate c rest (matched_id, min_dist))
      else match_loop gate c rest (matched_id, min_dist))"

definition find_match :: "tracker \<Rightarrow> point \<Rightarrow> int option" where
  "find_match s c = fst (match_loop (max_dist_sq s) c (tracked_objects s) (None, None))"

text \<open>Lines 107 to 115: the dictionary of a new track.\<close>

definition new_track :: "bbox \<Rightarrow> point \<Rightarrow> int \<Rightarrow> track" where
  "new_track b c f = \<lparr> bbox = b, centroid = c, lane = Unknown, status = Active,
     counted_in = False, counted_out = False, last_frame_id = f \<rparr>"

text \<open>
  Lines 84 to 117: the body of the loop over the person detections. It returns the engine
  and the id it adds to \<^verbatim>\<open>updated_tracked_ids\<close>.
\<close>

fun process_det :: "tracker \<Rightarrow> detection \<Rightarrow> tracker \<times> int" where
  "process_det s (det_x1, det_y1, det_x2, det_y2, label) =
     (let det_bbox = (det_x1, det_y1, det_x2, det_y2);
          det_centroid = get_centroid det_bbox
      in case find_match s det_centroid of
           Some matched_id \<Rightarrow>
             (s\<lparr> tracked_objects :=
                   dict_modify matched_id
                     (\<lambda>t. t\<lparr> bbox := det_bbox, centroid := det_centroid,
                             last_frame_id := frame_id s \<rparr>)
                     (tracked_objects s) \<rparr>,
              matched_id)
         | None \<Rightarrow>
             (s\<lparr> tracked_objects :=
                   dict_set (next_id s) (new_track det_bbox det_centroid (frame_id s))
                     (tracked_objects s),
                 next_id := next_id s + 1 \<rparr>,
              next_id s))"

text \<open>The loop itself, with the set \<^verbatim>\<open>updated_tracked_ids\<close>.\<close>

fun associate :: "tracker \<Rightarrow> int set \<Rightarrow> detection list \<Rightarrow> tracker \<times> int set" where
  "associate s updated_tracked_ids [] = (s, updated_tracked_ids)"
| "associate s updated_tracked_ids (d # ds) =
     (case process_det s d of (s', k) \<Rightarrow> associate s' (insert k updated_tracked_ids) ds)"

text \<open>The id each detection of the loop is given, in detection order.\<close>

fun assigned_ids :: "tracker \<Rightarrow> detection list \<Rightarrow> int list" where
  "assigned_ids s [] = []"
| "assigned_ids s (d # ds) = (case process_det s d of (s', k) \<Rightarrow> k # assigned_ids s' ds)"

text \<open>Lines 120 to 125: the stale ids are collected first and then deleted one by one.\<close>

definition is_stale :: "tracker \<Rightarrow> track \<Rightarrow> bool" where
  "is_stale s obj_data \<longleftrightarrow> frame_id s - last_frame_id obj_data > stale_frame_threshold s"

definition stale_ids :: "tracker \<Rightarrow> int list" where
  "stale_ids s = map fst (filter (\<lambda>p. is_stale s (snd p)) (tracked_objects s))"

definition remove_stale :: "tracker \<Rightarrow> tracker" where
  "remove_stale s =
     s\<lparr> tracked_objects := fold dict_del (stale_ids s) (tracked_objects s) \<rparr>"

text \<open>
  Lines 139 to 167: the body of the counting loop of Lane Counter mode, on one track and
  the two counters.
\<close>

definition count_track :: "int \<Rightarrow> int \<Rightarrow> int \<Rightarrow> track \<Rightarrow> int \<times> int \<Rightarrow> track \<times> int \<times> int" where
  "count_track split entry_y exit_y obj_data cnt =
     (case bbox obj_data of (x1, y1, x2, y2) \<Rightarrow>
      case centroid obj_data of (cx, cy) \<Rightarrow>
      case cnt of (ic, oc) \<Rightarrow>
        (let d1 = (if cx < split then obj_data\<lparr>lane := Enter\<rparr> else obj_data\<lparr>lane := Exit\<rparr>);
             e = (lane d1 = Enter \<and> y2 > entry_y \<and> \<not> counted_in d1);
             ic' = (if e then ic + 1 else ic);
             d2 = (if e then d1\<lparr>counted_in := True\<rparr> else d1);
             x = (lane d2 = Exit \<and> y1 < exit_y \<and> \<not> counted_out d2);
             oc' = (if x then oc + 1 else oc);
             d3 = (if x then d2\<lparr>counted_out := True\<rparr> else d2)
         in (d3, ic', oc')))"

text \<open>The counting loop over \<^verbatim>\<open>tracked_objects.items()\<close>.\<close>

fun count_loop :: "int \<Rightarrow> int \<Rightarrow> int \<Rightarrow> tracks \<Rightarrow> int \<times> int \<Rightarrow> tracks \<times> int \<times> int" where
  "count_loop split entry_y exit_y [] cnt = ([], cnt)"
| "count_loop split entry_y exit_y ((obj_id, obj_data) # rest) cnt =
     (case count_track split entry_y exit_y obj_data cnt of (obj_data', cnt') \<Rightarrow>
      case count_loop split entry_y exit_y rest cnt' of (rest', cnt'') \<Rightarrow>
        ((obj_id, obj_data') # rest', cnt''))"

text \<open>
  Lines 128 to 170. In Lane Counter mode the three boundary attributes were set on lines
  63 to 69 of the same call, so the \<open>None\<close> branch is not taken there.
\<close>

definition counting :: "tracker \<Rightarrow> detection list \<Rightarrow> tracker \<times> int" where
  "counting s detections =
     (if mode s = EagleEye then (s, int (length (persons detections)))
      else if mode s = LaneCounter then
        (case (lane_split_x s, entry_y_threshold s, exit_y_threshold s) of
           (Some split, Some entry_y, Some exit_y) \<Rightarrow>
             (case count_loop split entry_y exit_y (tracked_objects s)
                     (in_count s, out_count s) of
                (objs, ic, oc) \<Rightarrow>
                  (s\<lparr> tracked_objects := objs, in_count := ic, out_count := oc \<rparr>, ic - oc))
         | _ \<Rightarrow> (s, 0))
      else (s, 0))"

text \<open>
  Lines 59 to 117: the frame counter, the boundary configuration and the association loop.
  The result is the engine on line 118 and the set \<^verbatim>\<open>updated_tracked_ids\<close>.
  The method itself returns the engine and the triple \<^verbatim>\<open>(in_count, out_count,
  net_people_total)\<close>.
\<close>

definition association_phase :: "tracker \<Rightarrow> detection list \<Rightarrow> nat \<Rightarrow> nat \<Rightarrow> tracker \<times> int set" where
  "association_phase s detections h w =
     associate (init_thresholds (s\<lparr> frame_id := frame_id s + 1 \<rparr>) h w) {}
       (persons detections)"

definition update :: "tracker \<Rightarrow> detection list \<Rightarrow> nat \<Rightarrow> nat \<Rightarrow> tracker \<times> int \<times> int \<times> int" where
  "update s detections h w =
     (let s2 = fst (association_phase s detections h w);
          s3 = remove_stale s2
      in case counting s3 detections of
           (s4, net_people_total) \<Rightarrow> (s4, in_count s4, out_count s4, net_people_total))"

text \<open>A run of the engine over a sequence of frames, each given by its detections, height and width.\<close>

fun run :: "tracker \<Rightarrow> (detection list \<times> nat \<times> nat) list \<Rightarrow> tracker" where
  "run s [] = s"
| "run s ((detections, h, w) # frames) = run (fst (update s detections h w)) frames"

subsection \<open>Notions used to state the properties\<close>

text \<open>Reading the dictionary at a key.\<close>

definition lookup :: "tracks \<Rightarrow> int \<Rightarrow> track option" where
  "lookup d k = map_of d k"

text \<open>
  What a Python dict and the id allocator guarantee: no key occurs twice, and every key in
  use lies below \<^verbatim>\<open>next_id\<close>.
\<close>

definition well_formed :: "tracker \<Rightarrow> bool" where
  "well_formed s \<longleftrightarrow>
     distinct (keys (tracked_objects s)) \<and> list_all (\<lambda>k. k < next_id s) (keys (tracked_objects s))"

text \<open>
  A track is a candidate for a detection with centroid \<open>c\<close> when it is active and its
  squared centroid distance lies below the gate.
\<close>

definition in_gate :: "int \<Rightarrow> point \<Rightarrow> track \<Rightarrow> bool" where
  "in_gate gate c t \<longleftrightarrow> status t = Active \<and> distance_sq c (centroid t) < gate"

definition det_centroid :: "detection \<Rightarrow> point" where
  "det_centroid d = (case d of (x1, y1, x2, y2, label) \<Rightarrow> get_centroid (x1, y1, x2, y2))"

definition det_bbox :: "detection \<Rightarrow> bbox" where
  "det_bbox d = (case d of (x1, y1, x2, y2, label) \<Rightarrow> (x1, y1, x2, y2))"

text \<open>
  Position \<open>i\<close> of the dictionary holds a nearest candidate, the first one in iteration
  order: no candidate is nearer, and every candidate before it is farther.
\<close>

definition nearest_at :: "int \<Rightarrow> point \<Rightarrow> tracks \<Rightarrow> nat \<Rightarrow> bool" where
  "nearest_at gate c xs i \<longleftrightarrow>
     i < length xs \<and> in_gate gate c (snd (xs ! i))
     \<and> list_all (\<lambda>p. in_gate gate c (snd p) \<longrightarrow>
           distance_sq c (centroid (snd (xs ! i))) \<le> distance_sq c (centroid (snd p))) xs
     \<and> list_all (\<lambda>p. in_gate gate c (snd p) \<longrightarrow>
           distance_sq c (centroid (snd (xs ! i))) < distance_sq c (centroid (snd p))) (take i xs)"

text \<open>
  Two relations between a track before and after some steps: the association loop leaves
  lane, status and the two flags of a track alone, and a track created in frame \<open>f\<close> has
  the entries of a new track and was last seen in \<open>f\<close>.
\<close>

definition same_marks :: "track \<Rightarrow> track \<Rightarrow> bool" where
  "same_marks t t' \<longleftrightarrow>
     lane t' = lane t \<and> status t' = status t \<and> counted_in t' = counted_in t
     \<and> counted_out t' = counted_out t"

definition created_in :: "int \<Rightarrow> track \<Rightarrow> bool" where
  "created_in f t \<longleftrightarrow>
     lane t = Unknown \<and> status t = Active \<and> \<not> counted_in t \<and> \<not> counted_out t
     \<and> last_frame_id t = f"

text \<open>
  The two crossing conditions of the counting loop, on a track as the loop finds it: the
  centroid left of the lane split (the lane the loop then writes is \<open>Enter\<close>), the bottom
  edge below the entry line and \<^verbatim>\<open>counted_in\<close> not yet set; the centroid not left of the
  split (lane \<open>Exit\<close>), the top edge above the exit line and \<^verbatim>\<open>counted_out\<close> not yet set.
\<close>

definition top_edge :: "track \<Rightarrow> int" where
  "top_edge t = (case bbox t of (x1, y1, x2, y2) \<Rightarrow> y1)"

definition bottom_edge :: "track \<Rightarrow> int" where
  "bottom_edge t = (case bbox t of (x1, y1, x2, y2) \<Rightarrow> y2)"

definition crosses_in :: "int \<Rightarrow> int \<Rightarrow> track \<Rightarrow> bool" where
  "crosses_in split entry_y t \<longleftrightarrow>
     fst (centroid t) < split \<and> entry_y < bottom_edge t \<and> \<not> counted_in t"

definition crosses_out :: "int \<Rightarrow> int \<Rightarrow> track \<Rightarrow> bool" where
  "crosses_out split exit_y t \<longleftrightarrow>
     \<not> fst (centroid t) < split \<and> top_edge t < exit_y \<and> \<not> counted_out t"

text \<open>What the counting loop leaves of a track.\<close>

definition recount :: "int \<Rightarrow> int \<Rightarrow> int \<Rightarrow> track \<Rightarrow> track" where
  "recount split entry_y exit_y t =
     t\<lparr> lane := (if fst (centroid t) < split then Enter else Exit),
         counted_in := (counted_in t \<or> crosses_in split entry_y t),
         counted_out := (counted_out t \<or> crosses_out split exit_y t) \<rparr>"

text \<open>
  The boundary configuration after lines 63 to 69 in Lane Counter mode: the value already
  held, or else the one computed from the frame.
\<close>

definition split_after :: "tracker \<Rightarrow> nat \<Rightarrow> int" where
  "split_after s w = (case lane_split_x s of None \<Rightarrow> int w div 2 | Some v \<Rightarrow> v)"

definition entry_after :: "tracker \<Rightarrow> nat \<Rightarrow> int" where
  "entry_after s h = (case entry_y_threshold s of None \<Rightarrow> 9 * int h div 10 | Some v \<Rightarrow> v)"

definition exit_after :: "tracker \<Rightarrow> nat \<Rightarrow> int" where
  "exit_after s h = (case exit_y_threshold s of None \<Rightarrow> int h div 10 | Some v \<Rightarrow> v)"

text \<open>The tracks that survive the removal of the stale ones in a call of \<^verbatim>\<open>update\<close>.\<close>

definition alive :: "tracker \<Rightarrow> detection list \<Rightarrow> nat \<Rightarrow> nat \<Rightarrow> tracks" where
  "alive s detections h w =
     filter (\<lambda>p. \<not> is_stale (fst (association_phase s detections h w)) (snd p))
       (tracked_objects (fst (association_phase s detections h w)))"

text \<open>The ids the association loop of a call gives to the person detections, in order.\<close>

definition update_assignment :: "tracker \<Rightarrow> detection list \<Rightarrow> nat \<Rightarrow> nat \<Rightarrow> int list" where
  "update_assignment s detections h w =
     assigned_ids (init_thresholds (s\<lparr> frame_id := frame_id s + 1 \<rparr>) h w)
       (persons detections)"

text \<open>
  The crossing events one call commits: the ids whose flag is set in the engine after the
  call and was not set (or the track did not exist) before it.
\<close>

definition flag_set :: "(track \<Rightarrow> bool) \<Rightarrow> tracks \<Rightarrow> int \<Rightarrow> bool" where
  "flag_set flag d k = (case lookup d k of Some t \<Rightarrow> flag t | None \<Rightarrow> False)"

definition events :: "(track \<Rightarrow> bool) \<Rightarrow> tracker \<Rightarrow> tracker \<Rightarrow> int list" where
  "events flag s s' =
     map fst (filter (\<lambda>p. flag (snd p) \<and> \<not> flag_set flag (tracked_objects s) (fst p))
       (tracked_objects s'))"

text \<open>
  The ids that can still commit an event of a flag: the ids not yet allocated, and the
  tracks of the dictionary whose flag is not set.
\<close>

definition pending :: "(track \<Rightarrow> bool) \<Rightarrow> tracker \<Rightarrow> int set" where
  "pending flag s =
     {k. next_id s \<le> k} \<union> {k. \<exists>t. lookup (tracked_objects s) k = Some t \<and> \<not> flag t}"

text \<open>The crossing events of a run, frame after frame.\<close>

fun events_run :: "(track \<Rightarrow> bool) \<Rightarrow> tracker \<Rightarrow> (detection list \<times> nat \<times> nat) list \<Rightarrow> int list"
  where
  "events_run flag s [] = []"
| "events_run flag s ((detections, h, w) # frames) =
     events flag s (fst (update s detections h w))
       @ events_run flag (fst (update s detections h w)) frames"

subsection \<open>Example inputs\<close>

text \<open>Two person detections with centroids (100, 100) and (110, 100), and a far one.\<close>

definition det_a :: detection where
  "det_a = (90, 80, 110, 120, ''person'')"

definition det_b :: detection where
  "det_b = (100, 80, 120, 120, ''person'')"

definition det_far :: detection where
  "det_far = (400, 20, 440, 60, ''person'')"

definition det_dog :: detection where
  "det_dog = (90, 80, 110, 120, ''dog'')"

text \<open>A Lane Counter engine after a first frame of 480 by 640 holding \<open>det_a\<close> and \<open>det_far\<close>.\<close>

definition engine_two :: tracker where
  "engine_two = fst (update (init LaneCounter) [det_a, det_far] 480 640)"


text \<open>
  The engine \<open>engine_two\<close> switched to Eagle-Eye mode; its \<^verbatim>\<open>out_count\<close> is 1 from the
  frame processed in Lane Counter mode.
\<close>

definition engine_eagle :: tracker where
  "engine_eagle = engine_two\<lparr> mode := EagleEye \<rparr>"

text \<open>
  A person in the entering lane whose bottom edge is below the entry line of a 480 high
  frame (432), at 440 and then at 445.
\<close>

definition det_c :: detection where
  "det_c = (90, 400, 110, 440, ''person'')"

definition det_d :: detection where
  "det_d = (90, 405, 110, 445, ''person'')"

text \<open>A second person, 30 pixels to the right of \<open>det_c\<close>.\<close>

definition det_e :: detection where
  "det_e = (120, 400, 140, 440, ''person'')"

definition crossing_frames :: "(detection list \<times> nat \<times> nat) list" where
  "crossing_frames = [([det_c], 480, 640), ([det_d], 480, 640)]"

section \<open>Properties\<close>

subsection \<open>The dictionary\<close>

lemma keys_dict_modify [simp]: "keys (dict_modify k f d) = keys d"
  by (induction d) (auto simp: keys_def)

lemma lookup_dict_modify:
  "lookup (dict_modify k f d) k' = (if k' = k then map_option f (lookup d k) else lookup d k')"
  by (induction d) (auto simp: lookup_def)

lemma dict_set_fresh: "k \<notin> set (keys d) \<Longrightarrow> dict_set k v d = d @ [(k, v)]"
  by (induction d) (auto simp: keys_def)

lemma lookup_dict_set: "lookup (dict_set k v d) k' = (if k' = k then Some v else lookup d k')"
  by (induction d) (auto simp: lookup_def)

lemma fold_dict_del: "fold dict_del ks d = filter (\<lambda>p. fst p \<notin> set ks) d"
proof (induction ks arbitrary: d)
  case Nil
  then show ?case by simp
next
  case (Cons k ks)
  then show ?case by (simp add: dict_del_def conj_commute)
qed

lemma stale_key_iff:
  "distinct (map fst d) \<Longrightarrow> (k, t) \<in> set d \<Longrightarrow>
   k \<in> fst ` set (filter (\<lambda>p. P (snd p)) d) \<longleftrightarrow> P t"
  by (induction d) (auto simp: rev_image_eqI)

lemma remove_stale_filter:
  assumes "distinct (keys (tracked_objects s))"
  shows "tracked_objects (remove_stale s) = filter (\<lambda>p. \<not> is_stale s (snd p)) (tracked_objects s)"
proof -
  have "filter (\<lambda>p. fst p \<notin> set (stale_ids s)) (tracked_objects s)
      = filter (\<lambda>p. \<not> is_stale s (snd p)) (tracked_objects s)"
  proof (rule filter_cong[OF refl])
    fix p assume p: "p \<in> set (tracked_objects s)"
    obtain k t where kt: "p = (k, t)" by (cases p)
    from stale_key_iff[OF assms[unfolded keys_def], of k t "is_stale s"] p kt
    show "(fst p \<notin> set (stale_ids s)) = (\<not> is_stale s (snd p))"
      by (simp add: stale_ids_def)
  qed
  then show ?thesis by (simp add: remove_stale_def fold_dict_del)
qed

subsection \<open>The matching loop\<close>

lemma match_loop_snoc:
  "match_loop gate c (xs @ [(k, t)]) acc =
     (case match_loop gate c xs acc of (m, md) \<Rightarrow>
        if in_gate gate c t \<and> (case md of None \<Rightarrow> True | Some d \<Rightarrow> distance_sq c (centroid t) < d)
        then (Some k, Some (distance_sq c (centroid t))) else (m, md))"
proof (induction xs arbitrary: acc)
  case Nil
  then show ?case by (cases acc) (auto simp: in_gate_def Let_def)
next
  case (Cons x xs)
  obtain k' t' where x: "x = (k', t')" by (cases x)
  obtain m md where acc: "acc = (m, md)" by (cases acc)
  show ?case unfolding x acc by (simp add: Let_def Cons.IH)
qed

lemma match_loop_char:
  "case match_loop gate c xs (None, None) of
     (None, md) \<Rightarrow> md = None \<and> (\<forall>p \<in> set xs. \<not> in_gate gate c (snd p))
   | (Some k, None) \<Rightarrow> False
   | (Some k, Some d) \<Rightarrow> (\<exists>i. nearest_at gate c xs i \<and> fst (xs ! i) = k
        \<and> d = distance_sq c (centroid (snd (xs ! i))))"
proof (induction xs rule: rev_induct)
  case Nil
  then show ?case by simp
next
  case (snoc x xs)
  obtain k t where x: "x = (k, t)" by (cases x)
  obtain m md where r: "match_loop gate c xs (None, None) = (m, md)" by (cases "match_loop gate c xs (None, None)")
  let ?dt = "distance_sq c (centroid t)"
  show ?case
  proof (cases m)
    case None
    with snoc.IH r have md: "md = None" and no: "\<forall>p \<in> set xs. \<not> in_gate gate c (snd p)" by auto
    show ?thesis
    proof (cases "in_gate gate c t")
      case True
      have "nearest_at gate c (xs @ [(k, t)]) (length xs)"
        unfolding nearest_at_def using True no by (auto simp: nth_append list_all_iff)
      then show ?thesis unfolding x match_loop_snoc r using True md None
        by (auto intro!: exI[of _ "length xs"])
    next
      case False
      then show ?thesis unfolding x match_loop_snoc r using md None no by auto
    qed
  next
    case (Some k0)
    with snoc.IH r obtain d i where md: "md = Some d" and i: "nearest_at gate c xs i"
      "fst (xs ! i) = k0" "d = distance_sq c (centroid (snd (xs ! i)))"
      by (cases md) auto
    show ?thesis
    proof (cases "in_gate gate c t \<and> ?dt < d")
      case True
      have "nearest_at gate c (xs @ [(k, t)]) (length xs)"
        unfolding nearest_at_def using True i
        by (fastforce simp: nth_append nearest_at_def list_all_iff)
      then show ?thesis unfolding x match_loop_snoc r using True md Some
        by (auto intro!: exI[of _ "length xs"])
    next
      case False
      have "nearest_at gate c (xs @ [(k, t)]) i"
        unfolding nearest_at_def using False i
        by (auto simp: nth_append nearest_at_def list_all_iff)
      then show ?thesis unfolding x match_loop_snoc r using False md Some i
        by (auto intro!: exI[of _ i] simp: nth_append nearest_at_def)
    qed
  qed
qed

subsection \<open>One detection\<close>

lemma process_det_eq:
  "process_det s d =
     (case find_match s (det_centroid d) of
        Some m \<Rightarrow>
          (s\<lparr> tracked_objects :=
                dict_modify m
                  (\<lambda>t. t\<lparr> bbox := det_bbox d, centroid := det_centroid d,
                          last_frame_id := frame_id s \<rparr>)
                  (tracked_objects s) \<rparr>, m)
      | None \<Rightarrow>
          (s\<lparr> tracked_objects :=
                dict_set (next_id s) (new_track (det_bbox d) (det_centroid d) (frame_id s))
                  (tracked_objects s),
              next_id := next_id s + 1 \<rparr>, next_id s))"
  by (cases d) (simp add: det_centroid_def det_bbox_def Let_def split: option.split)

lemma find_match_None:
  "find_match s c = None \<longleftrightarrow> \<not> list_ex (\<lambda>p. in_gate (max_dist_sq s) c (snd p)) (tracked_objects s)"
proof -
  obtain m md where r: "match_loop (max_dist_sq s) c (tracked_objects s) (None, None) = (m, md)"
    by (cases "match_loop (max_dist_sq s) c (tracked_objects s) (None, None)")
  from match_loop_char[where gate = "max_dist_sq s" and c = c and xs = "tracked_objects s"] r
  show ?thesis
    by (cases m; cases md) (auto simp: find_match_def list_ex_iff nearest_at_def)
qed

lemma find_match_Some:
  assumes "find_match s c = Some k"
  shows "\<exists>i. nearest_at (max_dist_sq s) c (tracked_objects s) i \<and> fst (tracked_objects s ! i) = k"
proof -
  obtain m md where r: "match_loop (max_dist_sq s) c (tracked_objects s) (None, None) = (m, md)"
    by (cases "match_loop (max_dist_sq s) c (tracked_objects s) (None, None)")
  from match_loop_char[where gate = "max_dist_sq s" and c = c and xs = "tracked_objects s"] r assms
  show ?thesis
    by (cases m; cases md) (auto simp: find_match_def)
qed

lemma lookup_distinct:
  "distinct (keys d) \<Longrightarrow> (k, t) \<in> set d \<Longrightarrow> lookup d k = Some t"
  by (simp add: lookup_def keys_def)

lemma lookup_Some_mem: "lookup d k = Some t \<Longrightarrow> (k, t) \<in> set d"
  by (simp add: lookup_def map_of_SomeD)

lemma lookup_None_iff: "lookup d k = None \<longleftrightarrow> k \<notin> set (keys d)"
  by (simp add: lookup_def keys_def map_of_eq_None_iff)

lemma process_det_fields:
  "mode (fst (process_det s d)) = mode s"
  "lane_split_x (fst (process_det s d)) = lane_split_x s"
  "entry_y_threshold (fst (process_det s d)) = entry_y_threshold s"
  "exit_y_threshold (fst (process_det s d)) = exit_y_threshold s"
  "in_count (fst (process_det s d)) = in_count s"
  "out_count (fst (process_det s d)) = out_count s"
  "frame_id (fst (process_det s d)) = frame_id s"
  "max_dist_sq (fst (process_det s d)) = max_dist_sq s"
  "stale_frame_threshold (fst (process_det s d)) = stale_frame_threshold s"
  by (simp_all add: process_det_eq split: option.split)

lemma find_match_key: "find_match s c = Some k \<Longrightarrow> k \<in> set (keys (tracked_objects s))"
proof -
  assume "find_match s c = Some k"
  then obtain i where "nearest_at (max_dist_sq s) c (tracked_objects s) i" "fst (tracked_objects s ! i) = k"
    using find_match_Some by blast
  then show ?thesis by (auto simp: nearest_at_def keys_def)
qed

lemma keys_dict_set: "keys (dict_set k v d) = (if k \<in> set (keys d) then keys d else keys d @ [k])"
  by (induction d) (auto simp: keys_def)

lemma process_det_keys:
  "keys (tracked_objects (fst (process_det s d))) =
     (if find_match s (det_centroid d) = None \<and> next_id s \<notin> set (keys (tracked_objects s))
      then keys (tracked_objects s) @ [next_id s] else keys (tracked_objects s))"
  by (simp add: process_det_eq keys_dict_set split: option.split)

lemma process_det_next_id:
  "next_id (fst (process_det s d)) =
     (if find_match s (det_centroid d) = None then next_id s + 1 else next_id s)"
  by (simp add: process_det_eq split: option.split)

lemma process_det_well_formed:
  "well_formed s \<Longrightarrow> well_formed (fst (process_det s d))"
  unfolding well_formed_def
  by (auto simp: process_det_keys process_det_next_id list_all_iff)

lemma process_det_id_key:
  "snd (process_det s d) \<in> set (keys (tracked_objects (fst (process_det s d))))"
  by (auto simp: process_det_eq keys_dict_set find_match_key split: option.split)

lemma process_det_lookup_other:
  "k \<noteq> snd (process_det s d) \<Longrightarrow>
   lookup (tracked_objects (fst (process_det s d))) k = lookup (tracked_objects s) k"
  by (cases "find_match s (det_centroid d)")
     (simp_all add: process_det_eq lookup_dict_modify lookup_dict_set)

text \<open>What a detection leaves of a track it touches.\<close>

lemma process_det_lookup_id:
  assumes "well_formed s"
  shows "case lookup (tracked_objects s) (snd (process_det s d)) of
     Some t \<Rightarrow> lookup (tracked_objects (fst (process_det s d))) (snd (process_det s d))
        = Some (t\<lparr> bbox := det_bbox d, centroid := det_centroid d, last_frame_id := frame_id s \<rparr>)
   | None \<Rightarrow> snd (process_det s d) = next_id s \<and>
       lookup (tracked_objects (fst (process_det s d))) (snd (process_det s d))
        = Some (new_track (det_bbox d) (det_centroid d) (frame_id s))"
proof (cases "find_match s (det_centroid d)")
  case None
  from assms have "next_id s \<notin> set (keys (tracked_objects s))"
    by (auto simp: well_formed_def list_all_iff)
  then have "lookup (tracked_objects s) (next_id s) = None" by (simp add: lookup_None_iff)
  then show ?thesis using None by (simp add: process_det_eq lookup_dict_set)
next
  case (Some k)
  then have "k \<in> set (keys (tracked_objects s))" by (rule find_match_key)
  then obtain t where "lookup (tracked_objects s) k = Some t"
    using lookup_None_iff by (cases "lookup (tracked_objects s) k") auto
  then show ?thesis using Some by (simp add: process_det_eq lookup_dict_modify)
qed

lemma process_det_rule:
  assumes "well_formed s"
  shows "if list_ex (\<lambda>p. in_gate (max_dist_sq s) (det_centroid d) (snd p)) (tracked_objects s)
    then (\<exists>i t. nearest_at (max_dist_sq s) (det_centroid d) (tracked_objects s) i
           \<and> tracked_objects s ! i = (snd (process_det s d), t)
           \<and> keys (tracked_objects (fst (process_det s d))) = keys (tracked_objects s)
           \<and> lookup (tracked_objects (fst (process_det s d))) (snd (process_det s d))
               = Some (t\<lparr> bbox := det_bbox d, centroid := det_centroid d,
                           last_frame_id := frame_id s \<rparr>)
           \<and> (\<forall>k. k \<noteq> snd (process_det s d) \<longrightarrow>
                 lookup (tracked_objects (fst (process_det s d))) k = lookup (tracked_objects s) k)
           \<and> next_id (fst (process_det s d)) = next_id s)
    else (tracked_objects (fst (process_det s d))
            = tracked_objects s @ [(next_id s, new_track (det_bbox d) (det_centroid d) (frame_id s))]
          \<and> snd (process_det s d) = next_id s
          \<and> next_id s \<notin> set (keys (tracked_objects s))
          \<and> next_id (fst (process_det s d)) = next_id s + 1)"
proof (cases "find_match s (det_centroid d)")
  case None
  from assms have fresh: "next_id s \<notin> set (keys (tracked_objects s))"
    by (auto simp: well_formed_def list_all_iff)
  from None have "\<not> list_ex (\<lambda>p. in_gate (max_dist_sq s) (det_centroid d) (snd p)) (tracked_objects s)"
    by (simp add: find_match_None)
  then show ?thesis using None fresh by (simp add: process_det_eq dict_set_fresh)
next
  case (Some k)
  then obtain i where i: "nearest_at (max_dist_sq s) (det_centroid d) (tracked_objects s) i"
    "fst (tracked_objects s ! i) = k" using find_match_Some by blast
  define t where "t = snd (tracked_objects s ! i)"
  have il: "i < length (tracked_objects s)" using i(1) by (simp add: nearest_at_def)
  have kt: "tracked_objects s ! i = (k, t)" using i(2) t_def by (metis prod.collapse)
  then have mem: "(k, t) \<in> set (tracked_objects s)" using il by (metis nth_mem)
  have ex: "list_ex (\<lambda>p. in_gate (max_dist_sq s) (det_centroid d) (snd p)) (tracked_objects s)"
    using i(1) mem kt by (force simp: nearest_at_def list_ex_iff)
  have lk: "lookup (tracked_objects s) k = Some t"
    using assms mem by (simp add: well_formed_def lookup_distinct)
  show ?thesis using ex Some i(1) kt lk
    by (auto simp add: process_det_eq lookup_dict_modify intro!: exI[of _ i] exI[of _ t])
qed

subsection \<open>The association loop\<close>

lemma same_marks_refl [simp]: "same_marks t t"
  by (simp add: same_marks_def)

lemma same_marks_trans: "same_marks t t' \<Longrightarrow> same_marks t' t'' \<Longrightarrow> same_marks t t''"
  by (simp add: same_marks_def)

lemma process_det_keeps:
  assumes "well_formed s" "lookup (tracked_objects s) k = Some t"
  shows "\<exists>t'. lookup (tracked_objects (fst (process_det s d))) k = Some t' \<and> same_marks t t'
           \<and> (k \<noteq> snd (process_det s d) \<longrightarrow> t' = t)
           \<and> (k = snd (process_det s d) \<longrightarrow> last_frame_id t' = frame_id s)"
proof (cases "k = snd (process_det s d)")
  case True
  with process_det_lookup_id[OF assms(1), of d] assms(2) show ?thesis
    by (simp add: same_marks_def)
next
  case False
  then show ?thesis using assms(2) by (simp add: process_det_lookup_other)
qed

lemma process_det_creates:
  assumes "well_formed s" "lookup (tracked_objects s) k = None"
    "lookup (tracked_objects (fst (process_det s d))) k = Some t'"
  shows "k = next_id s \<and> k = snd (process_det s d) \<and> created_in (frame_id s) t'"
proof (cases "k = snd (process_det s d)")
  case True
  with process_det_lookup_id[OF assms(1), of d] assms(2,3) show ?thesis
    by (auto simp: created_in_def new_track_def)
next
  case False
  then show ?thesis using assms(2,3) by (simp add: process_det_lookup_other)
qed

lemma associate_fields:
  "mode (fst (associate s ids ds)) = mode s
   \<and> lane_split_x (fst (associate s ids ds)) = lane_split_x s
   \<and> entry_y_threshold (fst (associate s ids ds)) = entry_y_threshold s
   \<and> exit_y_threshold (fst (associate s ids ds)) = exit_y_threshold s
   \<and> in_count (fst (associate s ids ds)) = in_count s
   \<and> out_count (fst (associate s ids ds)) = out_count s
   \<and> frame_id (fst (associate s ids ds)) = frame_id s
   \<and> max_dist_sq (fst (associate s ids ds)) = max_dist_sq s
   \<and> stale_frame_threshold (fst (associate s ids ds)) = stale_frame_threshold s"
proof (induction ds arbitrary: s ids)
  case Nil
  then show ?case by simp
next
  case (Cons d ds)
  obtain s' k where pd: "process_det s d = (s', k)" by (cases "process_det s d")
  from process_det_fields[of s d] pd Cons.IH[of s' "insert k ids"]
  show ?case by (simp del: process_det.simps)
qed

lemma associate_well_formed:
  "well_formed s \<Longrightarrow> well_formed (fst (associate s ids ds))"
proof (induction ds arbitrary: s ids)
  case Nil
  then show ?case by simp
next
  case (Cons d ds)
  obtain s' k where pd: "process_det s d = (s', k)" by (cases "process_det s d")
  from process_det_well_formed[OF Cons.prems, of d] pd have "well_formed s'" by simp
  from Cons.IH[OF this, of "insert k ids"] pd show ?case by (simp del: process_det.simps)
qed

lemma associate_next_id: "next_id s \<le> next_id (fst (associate s ids ds))"
proof (induction ds arbitrary: s ids)
  case Nil
  then show ?case by simp
next
  case (Cons d ds)
  obtain s' k where pd: "process_det s d = (s', k)" by (cases "process_det s d")
  from process_det_next_id[of s d] pd have "next_id s \<le> next_id s'" by (simp split: if_splits)
  with Cons.IH[of s' "insert k ids"] pd show ?case by (simp del: process_det.simps)
qed

lemma associate_ids: "snd (associate s ids ds) = ids \<union> set (assigned_ids s ds)"
proof (induction ds arbitrary: s ids)
  case Nil
  then show ?case by simp
next
  case (Cons d ds)
  obtain s' k where pd: "process_det s d = (s', k)" by (cases "process_det s d")
  with Cons.IH[of s' "insert k ids"] show ?case by (simp del: process_det.simps)
qed

lemma associate_keeps:
  assumes "well_formed s" "lookup (tracked_objects s) k = Some t"
  shows "\<exists>t'. lookup (tracked_objects (fst (associate s ids ds))) k = Some t' \<and> same_marks t t'
           \<and> (k \<notin> set (assigned_ids s ds) \<longrightarrow> t' = t)
           \<and> (k \<in> set (assigned_ids s ds) \<longrightarrow> last_frame_id t' = frame_id s)"
  using assms
proof (induction ds arbitrary: s ids t)
  case Nil
  then show ?case by simp
next
  case (Cons d ds)
  obtain s' j where pd: "process_det s d = (s', j)" by (cases "process_det s d")
  have wf': "well_formed s'" using process_det_well_formed[OF Cons.prems(1), of d] pd by simp
  have fr: "frame_id s' = frame_id s" using process_det_fields(7)[of s d] pd by simp
  from process_det_keeps[OF Cons.prems, of d] pd obtain t1 where t1:
    "lookup (tracked_objects s') k = Some t1" "same_marks t t1"
    "k \<noteq> j \<longrightarrow> t1 = t" "k = j \<longrightarrow> last_frame_id t1 = frame_id s"
    by auto
  from Cons.IH[OF wf' t1(1), of "insert j ids"] obtain t' where t':
    "lookup (tracked_objects (fst (associate s' (insert j ids) ds))) k = Some t'"
    "same_marks t1 t'" "k \<notin> set (assigned_ids s' ds) \<longrightarrow> t' = t1"
    "k \<in> set (assigned_ids s' ds) \<longrightarrow> last_frame_id t' = frame_id s'"
    by auto
  show ?case using t1 t' pd fr same_marks_trans[OF t1(2) t'(2)]
    by (auto simp del: process_det.simps)
qed

lemma associate_creates:
  assumes "well_formed s" "lookup (tracked_objects s) k = None"
    "lookup (tracked_objects (fst (associate s ids ds))) k = Some t'"
  shows "next_id s \<le> k \<and> k \<in> set (assigned_ids s ds) \<and> created_in (frame_id s) t'"
  using assms
proof (induction ds arbitrary: s ids)
  case Nil
  then show ?case by simp
next
  case (Cons d ds)
  obtain s' j where pd: "process_det s d = (s', j)" by (cases "process_det s d")
  have wf': "well_formed s'" using process_det_well_formed[OF Cons.prems(1), of d] pd by simp
  have fr: "frame_id s' = frame_id s" using process_det_fields(7)[of s d] pd by simp
  have nx: "next_id s \<le> next_id s'" using process_det_next_id[of s d] pd by (simp split: if_splits)
  from Cons.prems(3) pd
  have fin: "lookup (tracked_objects (fst (associate s' (insert j ids) ds))) k = Some t'"
    by (simp del: process_det.simps)
  show ?case
  proof (cases "lookup (tracked_objects s') k")
    case None
    from Cons.IH[OF wf' None fin] nx fr pd show ?thesis by (simp del: process_det.simps)
  next
    case (Some t1)
    from process_det_creates[OF Cons.prems(1,2), of d t1] Some pd
    have k: "k = next_id s" "k = j" "created_in (frame_id s) t1" by simp_all
    from associate_keeps[OF wf' Some, of "insert j ids" ds] fin
    have "same_marks t1 t'" "k \<notin> set (assigned_ids s' ds) \<longrightarrow> t' = t1"
      "k \<in> set (assigned_ids s' ds) \<longrightarrow> last_frame_id t' = frame_id s'" by auto
    then have "created_in (frame_id s) t'" using k(3) fr
      by (cases "k \<in> set (assigned_ids s' ds)") (auto simp: created_in_def same_marks_def)
    then show ?thesis using k pd by (simp del: process_det.simps)
  qed
qed

lemma associate_append:
  "associate s ids (pre @ post)
     = associate (fst (associate s ids pre)) (snd (associate s ids pre)) post"
proof (induction pre arbitrary: s ids)
  case Nil
  then show ?case by simp
next
  case (Cons d pre)
  obtain s' k where pd: "process_det s d = (s', k)" by (cases "process_det s d")
  with Cons.IH[of s' "insert k ids"] show ?case by (simp del: process_det.simps)
qed

subsection \<open>The counting loop\<close>

lemma count_track_eq:
  "count_track split entry_y exit_y t (ic, oc) =
     (t\<lparr> lane := (if fst (centroid t) < split then Enter else Exit),
         counted_in := (counted_in t \<or> crosses_in split entry_y t),
         counted_out := (counted_out t \<or> crosses_out split exit_y t) \<rparr>,
      (if crosses_in split entry_y t then ic + 1 else ic),
      (if crosses_out split exit_y t then oc + 1 else oc))"
  by (cases "bbox t"; cases "centroid t")
     (auto simp: count_track_def crosses_in_def crosses_out_def top_edge_def bottom_edge_def Let_def)

lemma count_loop_eq:
  "count_loop split entry_y exit_y d (ic, oc) =
     (map (\<lambda>p. (fst p, recount split entry_y exit_y (snd p))) d,
      ic + int (length (filter (\<lambda>p. crosses_in split entry_y (snd p)) d)),
      oc + int (length (filter (\<lambda>p. crosses_out split exit_y (snd p)) d)))"
proof (induction d arbitrary: ic oc)
  case Nil
  then show ?case by simp
next
  case (Cons p d)
  obtain k t where p: "p = (k, t)" by (cases p)
  show ?case unfolding p
    by (simp add: count_track_eq Cons.IH recount_def)
qed

lemma crosses_recount:
  "\<not> crosses_in split entry_y (recount split entry_y exit_y t)"
  "\<not> crosses_out split exit_y (recount split entry_y exit_y t)"
  by (auto simp: crosses_in_def crosses_out_def recount_def top_edge_def bottom_edge_def)

subsection \<open>One call of \<^verbatim>\<open>update\<close>\<close>

lemma init_thresholds_fields:
  "tracked_objects (init_thresholds s h w) = tracked_objects s"
  "next_id (init_thresholds s h w) = next_id s"
  "mode (init_thresholds s h w) = mode s"
  "in_count (init_thresholds s h w) = in_count s"
  "out_count (init_thresholds s h w) = out_count s"
  "frame_id (init_thresholds s h w) = frame_id s"
  "max_dist_sq (init_thresholds s h w) = max_dist_sq s"
  "stale_frame_threshold (init_thresholds s h w) = stale_frame_threshold s"
  by (simp_all add: init_thresholds_def)

lemma init_thresholds_lane_counter:
  assumes "mode s = LaneCounter"
  shows "lane_split_x (init_thresholds s h w) = Some (split_after s w)"
    "entry_y_threshold (init_thresholds s h w) = Some (entry_after s h)"
    "exit_y_threshold (init_thresholds s h w) = Some (exit_after s h)"
  using assms
  by (simp_all add: init_thresholds_def split_after_def entry_after_def exit_after_def
      split: option.split)

lemma init_thresholds_other:
  assumes "mode s \<noteq> LaneCounter"
  shows "init_thresholds s h w = s"
  using assms by (simp add: init_thresholds_def)

lemma well_formed_start:
  "well_formed s \<Longrightarrow> well_formed (init_thresholds (s\<lparr> frame_id := frame_id s + 1 \<rparr>) h w)"
  by (simp add: well_formed_def init_thresholds_fields)

lemma association_phase_well_formed:
  "well_formed s \<Longrightarrow> well_formed (fst (association_phase s ds h w))"
  unfolding association_phase_def
  by (intro associate_well_formed well_formed_start)

lemma association_phase_fields:
  "mode (fst (association_phase s ds h w)) = mode s"
  "in_count (fst (association_phase s ds h w)) = in_count s"
  "out_count (fst (association_phase s ds h w)) = out_count s"
  "frame_id (fst (association_phase s ds h w)) = frame_id s + 1"
  "max_dist_sq (fst (association_phase s ds h w)) = max_dist_sq s"
  "stale_frame_threshold (fst (association_phase s ds h w)) = stale_frame_threshold s"
  unfolding association_phase_def
  using associate_fields[of "init_thresholds (s\<lparr> frame_id := frame_id s + 1 \<rparr>) h w" "{}" "persons ds"]
  by (simp_all add: init_thresholds_fields)

lemma association_phase_thresholds:
  "lane_split_x (fst (association_phase s ds h w)) =
     (if mode s = LaneCounter then Some (split_after s w) else lane_split_x s)"
  "entry_y_threshold (fst (association_phase s ds h w)) =
     (if mode s = LaneCounter then Some (entry_after s h) else entry_y_threshold s)"
  "exit_y_threshold (fst (association_phase s ds h w)) =
     (if mode s = LaneCounter then Some (exit_after s h) else exit_y_threshold s)"
  unfolding association_phase_def
  using associate_fields[of "init_thresholds (s\<lparr> frame_id := frame_id s + 1 \<rparr>) h w" "{}" "persons ds"]
  by (simp_all add: init_thresholds_def split_after_def entry_after_def exit_after_def
      split: option.split)

lemma association_phase_next_id:
  "next_id s \<le> next_id (fst (association_phase s ds h w))"
  unfolding association_phase_def
  using associate_next_id[of "init_thresholds (s\<lparr> frame_id := frame_id s + 1 \<rparr>) h w" "{}" "persons ds"]
  by (simp add: init_thresholds_fields)

lemma association_phase_keeps:
  assumes "well_formed s" "lookup (tracked_objects s) k = Some t"
  shows "\<exists>t'. lookup (tracked_objects (fst (association_phase s ds h w))) k = Some t'
           \<and> same_marks t t'
           \<and> (k \<notin> snd (association_phase s ds h w) \<longrightarrow> t' = t)
           \<and> (k \<in> snd (association_phase s ds h w) \<longrightarrow> last_frame_id t' = frame_id s + 1)"
proof -
  let ?s1 = "init_thresholds (s\<lparr> frame_id := frame_id s + 1 \<rparr>) h w"
  have lk: "lookup (tracked_objects ?s1) k = Some t"
    using assms(2) by (simp add: init_thresholds_fields)
  from associate_keeps[OF well_formed_start[OF assms(1)] lk, of "{}" "persons ds"]
  show ?thesis
    by (simp add: association_phase_def associate_ids init_thresholds_fields)
qed

lemma association_phase_creates:
  assumes "well_formed s" "lookup (tracked_objects s) k = None"
    "lookup (tracked_objects (fst (association_phase s ds h w))) k = Some t'"
  shows "next_id s \<le> k \<and> k \<in> snd (association_phase s ds h w)
         \<and> created_in (frame_id s + 1) t'"
proof -
  let ?s1 = "init_thresholds (s\<lparr> frame_id := frame_id s + 1 \<rparr>) h w"
  have lk: "lookup (tracked_objects ?s1) k = None"
    using assms(2) by (simp add: init_thresholds_fields)
  from associate_creates[OF well_formed_start[OF assms(1)] lk, of "{}" "persons ds" t'] assms(3)
  show ?thesis
    by (simp add: association_phase_def associate_ids init_thresholds_fields)
qed

lemma alive_eq:
  assumes "well_formed s"
  shows "tracked_objects (remove_stale (fst (association_phase s ds h w))) = alive s ds h w"
proof -
  have "distinct (keys (tracked_objects (fst (association_phase s ds h w))))"
    using association_phase_well_formed[OF assms] by (simp add: well_formed_def)
  then show ?thesis by (simp add: remove_stale_filter alive_def)
qed

lemma remove_stale_fields:
  "mode (remove_stale s) = mode s"
  "lane_split_x (remove_stale s) = lane_split_x s"
  "entry_y_threshold (remove_stale s) = entry_y_threshold s"
  "exit_y_threshold (remove_stale s) = exit_y_threshold s"
  "in_count (remove_stale s) = in_count s"
  "out_count (remove_stale s) = out_count s"
  "next_id (remove_stale s) = next_id s"
  by (simp_all add: remove_stale_def)

lemma remove_stale_eq:
  "remove_stale s = s\<lparr> tracked_objects := tracked_objects (remove_stale s) \<rparr>"
  by (simp add: remove_stale_def)

text \<open>The three shapes of a call.\<close>

lemma update_eagle_eye:
  assumes "well_formed s" "mode s = EagleEye"
  shows "update s ds h w =
    ((fst (association_phase s ds h w))\<lparr> tracked_objects := alive s ds h w \<rparr>,
     in_count s, out_count s, int (length (persons ds)))"
proof -
  have "remove_stale (fst (association_phase s ds h w))
        = (fst (association_phase s ds h w))\<lparr> tracked_objects := alive s ds h w \<rparr>"
    using remove_stale_eq[of "fst (association_phase s ds h w)"] alive_eq[OF assms(1)] by simp
  then show ?thesis using assms(2)
    by (simp add: update_def counting_def Let_def association_phase_fields)
qed

lemma update_other:
  assumes "well_formed s" "mode s = OtherMode"
  shows "update s ds h w =
    ((fst (association_phase s ds h w))\<lparr> tracked_objects := alive s ds h w \<rparr>,
     in_count s, out_count s, 0)"
proof -
  have "remove_stale (fst (association_phase s ds h w))
        = (fst (association_phase s ds h w))\<lparr> tracked_objects := alive s ds h w \<rparr>"
    using remove_stale_eq[of "fst (association_phase s ds h w)"] alive_eq[OF assms(1)] by simp
  then show ?thesis using assms(2)
    by (simp add: update_def counting_def Let_def association_phase_fields)
qed

lemma update_lane_counter:
  assumes "well_formed s" "mode s = LaneCounter"
  shows "update s ds h w =
    ((fst (association_phase s ds h w))
       \<lparr> tracked_objects :=
           map (\<lambda>p. (fst p, recount (split_after s w) (entry_after s h) (exit_after s h) (snd p)))
             (alive s ds h w),
         in_count := in_count s
           + int (length (filter (\<lambda>p. crosses_in (split_after s w) (entry_after s h) (snd p))
                    (alive s ds h w))),
         out_count := out_count s
           + int (length (filter (\<lambda>p. crosses_out (split_after s w) (exit_after s h) (snd p))
                    (alive s ds h w))) \<rparr>,
     in_count s
       + int (length (filter (\<lambda>p. crosses_in (split_after s w) (entry_after s h) (snd p))
                (alive s ds h w))),
     out_count s
       + int (length (filter (\<lambda>p. crosses_out (split_after s w) (exit_after s h) (snd p))
                (alive s ds h w))),
     in_count s
       + int (length (filter (\<lambda>p. crosses_in (split_after s w) (entry_after s h) (snd p))
                (alive s ds h w)))
     - (out_count s
       + int (length (filter (\<lambda>p. crosses_out (split_after s w) (exit_after s h) (snd p))
                (alive s ds h w)))))"
proof -
  have rs: "remove_stale (fst (association_phase s ds h w))
        = (fst (association_phase s ds h w))\<lparr> tracked_objects := alive s ds h w \<rparr>"
    using remove_stale_eq[of "fst (association_phase s ds h w)"] alive_eq[OF assms(1)] by simp
  show ?thesis using assms(2) unfolding update_def Let_def rs counting_def
    by (simp add: association_phase_fields association_phase_thresholds count_loop_eq)
qed

lemma lookup_filter:
  "distinct (keys d) \<Longrightarrow>
   lookup (filter P d) k = (case lookup d k of Some t \<Rightarrow> if P (k, t) then Some t else None | None \<Rightarrow> None)"
proof (induction d)
  case Nil
  then show ?case by (simp add: lookup_def)
next
  case (Cons p d)
  obtain j t where p: "p = (j, t)" by (cases p)
  from Cons.prems have d: "distinct (keys d)" and j: "j \<notin> set (keys d)"
    by (simp_all add: keys_def p)
  from j have "lookup d j = None" by (simp add: lookup_None_iff)
  with Cons.IH[OF d] show ?case unfolding p
    by (auto simp: lookup_def split: option.split)
qed

lemma lookup_map_snd:
  "lookup (map (\<lambda>p. (fst p, f (snd p))) d) k = map_option f (lookup d k)"
  by (induction d) (auto simp: lookup_def)

lemma keys_map_snd [simp]: "keys (map (\<lambda>p. (fst p, f (snd p))) d) = keys d"
  by (simp add: keys_def comp_def)

lemma alive_lookup:
  assumes "well_formed s"
  shows "lookup (alive s ds h w) k =
    (case lookup (tracked_objects (fst (association_phase s ds h w))) k of
       Some t \<Rightarrow> if is_stale (fst (association_phase s ds h w)) t then None else Some t
     | None \<Rightarrow> None)"
proof -
  have "distinct (keys (tracked_objects (fst (association_phase s ds h w))))"
    using association_phase_well_formed[OF assms] by (simp add: well_formed_def)
  then show ?thesis unfolding alive_def
    by (simp add: lookup_filter split: option.split)
qed

lemma alive_keys_subset:
  "set (keys (alive s ds h w)) \<subseteq> set (keys (tracked_objects (fst (association_phase s ds h w))))"
  by (auto simp: alive_def keys_def)

lemma alive_distinct:
  assumes "well_formed s"
  shows "distinct (keys (alive s ds h w))"
proof -
  have "distinct (keys (tracked_objects (fst (association_phase s ds h w))))"
    using association_phase_well_formed[OF assms] by (simp add: well_formed_def)
  then show ?thesis unfolding alive_def keys_def by (rule distinct_map_filter)
qed

text \<open>The keys of the dictionary after a call, whatever the mode.\<close>

lemma update_keys:
  assumes "well_formed s"
  shows "keys (tracked_objects (fst (update s ds h w))) = keys (alive s ds h w)"
  using assms
  by (cases "mode s") (simp_all add: update_eagle_eye update_other update_lane_counter)

lemma update_next_id:
  assumes "well_formed s"
  shows "next_id (fst (update s ds h w)) = next_id (fst (association_phase s ds h w))"
  using assms
  by (cases "mode s") (simp_all add: update_eagle_eye update_other update_lane_counter)

lemma update_well_formed:
  assumes "well_formed s"
  shows "well_formed (fst (update s ds h w))"
proof -
  have wf2: "well_formed (fst (association_phase s ds h w))"
    by (rule association_phase_well_formed[OF assms])
  have "list_all (\<lambda>k. k < next_id (fst (association_phase s ds h w))) (keys (alive s ds h w))"
    using wf2 alive_keys_subset[of s ds h w] by (auto simp: well_formed_def list_all_iff)
  then show ?thesis unfolding well_formed_def
    using alive_distinct[OF assms] by (simp add: update_keys[OF assms] update_next_id[OF assms])
qed

lemma update_fields:
  assumes "well_formed s"
  shows "mode (fst (update s ds h w)) = mode s"
    "frame_id (fst (update s ds h w)) = frame_id s + 1"
    "max_dist_sq (fst (update s ds h w)) = max_dist_sq s"
    "stale_frame_threshold (fst (update s ds h w)) = stale_frame_threshold s"
  using assms
  by (cases "mode s"; simp add: update_eagle_eye update_other update_lane_counter
        association_phase_fields)+

lemma run_well_formed: "well_formed s \<Longrightarrow> well_formed (run s frames)"
proof (induction frames arbitrary: s)
  case Nil
  then show ?case by simp
next
  case (Cons f frames)
  obtain ds h w where f: "f = (ds, h, w)" by (cases f)
  show ?case unfolding f using Cons.IH[OF update_well_formed[OF Cons.prems]] by simp
qed

lemma update_lookup:
  assumes "well_formed s"
  shows "lookup (tracked_objects (fst (update s ds h w))) k =
    (if mode s = LaneCounter
     then map_option (recount (split_after s w) (entry_after s h) (exit_after s h))
            (lookup (alive s ds h w) k)
     else lookup (alive s ds h w) k)"
  using assms
  by (cases "mode s")
     (simp_all add: update_eagle_eye update_other update_lane_counter lookup_map_snd)

lemma update_thresholds:
  assumes "well_formed s"
  shows "lane_split_x (fst (update s ds h w)) =
      (if mode s = LaneCounter then Some (split_after s w) else lane_split_x s)"
    "entry_y_threshold (fst (update s ds h w)) =
      (if mode s = LaneCounter then Some (entry_after s h) else entry_y_threshold s)"
    "exit_y_threshold (fst (update s ds h w)) =
      (if mode s = LaneCounter then Some (exit_after s h) else exit_y_threshold s)"
  using assms
  by (cases "mode s"; simp add: update_eagle_eye update_other update_lane_counter
        association_phase_thresholds)+

lemma update_lanes:
  assumes "well_formed s" "mode s = LaneCounter"
  shows "list_all (\<lambda>p. lane (snd p) =
            (if fst (centroid (snd p)) < split_after s w then Enter else Exit))
          (tracked_objects (fst (update s ds h w)))"
  by (simp add: update_lane_counter[OF assms] list_all_iff recount_def)

lemma run_boundary_held:
  assumes "well_formed s" "mode s = LaneCounter"
    "lane_split_x s = Some a" "entry_y_threshold s = Some b" "exit_y_threshold s = Some c"
  shows "lane_split_x (run s frames) = Some a \<and> entry_y_threshold (run s frames) = Some b
    \<and> exit_y_threshold (run s frames) = Some c
    \<and> (frames \<noteq> [] \<longrightarrow>
         list_all (\<lambda>p. lane (snd p) = (if fst (centroid (snd p)) < a then Enter else Exit))
           (tracked_objects (run s frames)))"
  using assms
proof (induction frames arbitrary: s)
  case Nil
  then show ?case by simp
next
  case (Cons f frames)
  obtain ds h w where f: "f = (ds, h, w)" by (cases f)
  let ?s' = "fst (update s ds h w)"
  have wf': "well_formed ?s'" by (rule update_well_formed[OF Cons.prems(1)])
  have m': "mode ?s' = LaneCounter" using Cons.prems(2) by (simp add: update_fields[OF Cons.prems(1)])
  have sa: "split_after s w = a" "entry_after s h = b" "exit_after s h = c"
    using Cons.prems(3,4,5) by (simp_all add: split_after_def entry_after_def exit_after_def)
  have th: "lane_split_x ?s' = Some a" "entry_y_threshold ?s' = Some b" "exit_y_threshold ?s' = Some c"
    using Cons.prems(2) sa by (simp_all add: update_thresholds[OF Cons.prems(1)])
  show ?case
  proof (cases frames)
    case Nil
    with th update_lanes[OF Cons.prems(1,2), of w ds h] sa show ?thesis
      by (simp add: f)
  next
    case (Cons g gs)
    with Cons.IH[OF wf' m' th] show ?thesis by (simp add: f)
  qed
qed

lemma init_well_formed: "well_formed (init m)"
  by (simp add: well_formed_def init_def keys_def)

lemma reset_counts_well_formed: "well_formed (reset_counts s)"
  by (simp add: well_formed_def reset_counts_def keys_def)

subsection \<open>Crossing events\<close>

lemma association_phase_flags:
  assumes "well_formed s" "(k, t) \<in> set (tracked_objects (fst (association_phase s ds h w)))"
  shows "flag_set counted_in (tracked_objects s) k = counted_in t"
    "flag_set counted_out (tracked_objects s) k = counted_out t"
proof -
  have "distinct (keys (tracked_objects (fst (association_phase s ds h w))))"
    using association_phase_well_formed[OF assms(1)] by (simp add: well_formed_def)
  then have lk: "lookup (tracked_objects (fst (association_phase s ds h w))) k = Some t"
    using assms(2) by (rule lookup_distinct)
  have "flag_set counted_in (tracked_objects s) k = counted_in t
      \<and> flag_set counted_out (tracked_objects s) k = counted_out t"
  proof (cases "lookup (tracked_objects s) k")
    case None
    from association_phase_creates[OF assms(1) None lk] None show ?thesis
      by (simp add: flag_set_def created_in_def)
  next
    case (Some t0)
    from association_phase_keeps[OF assms(1) Some, of ds h w] lk Some show ?thesis
      by (auto simp: flag_set_def same_marks_def)
  qed
  then show "flag_set counted_in (tracked_objects s) k = counted_in t"
    "flag_set counted_out (tracked_objects s) k = counted_out t" by simp_all
qed

lemma alive_mem:
  "p \<in> set (alive s ds h w) \<Longrightarrow> p \<in> set (tracked_objects (fst (association_phase s ds h w)))"
  by (simp add: alive_def)

lemma events_in:
  assumes "well_formed s"
  shows "events counted_in s (fst (update s ds h w)) =
    (if mode s = LaneCounter
     then map fst (filter (\<lambda>p. crosses_in (split_after s w) (entry_after s h) (snd p))
                     (alive s ds h w))
     else [])"
proof -
  have fl: "flag_set counted_in (tracked_objects s) (fst p) = counted_in (snd p)"
    if "p \<in> set (alive s ds h w)" for p
    using association_phase_flags(1)[OF assms, of "fst p" "snd p" ds h w] alive_mem[OF that]
    by simp
  show ?thesis
  proof (cases "mode s = LaneCounter")
    case True
    have "filter (\<lambda>p. counted_in (recount (split_after s w) (entry_after s h) (exit_after s h) (snd p))
                 \<and> \<not> flag_set counted_in (tracked_objects s) (fst p)) (alive s ds h w)
        = filter (\<lambda>p. crosses_in (split_after s w) (entry_after s h) (snd p)) (alive s ds h w)"
      by (rule filter_cong[OF refl]) (auto simp: fl recount_def crosses_in_def)
    then show ?thesis using True
      by (simp add: events_def update_lane_counter[OF assms True] filter_map comp_def)
  next
    case False
    have "filter (\<lambda>p. counted_in (snd p) \<and> \<not> flag_set counted_in (tracked_objects s) (fst p))
            (alive s ds h w) = []"
      by (auto simp: filter_empty_conv fl)
    then show ?thesis using False
      by (cases "mode s") (simp_all add: events_def update_eagle_eye[OF assms] update_other[OF assms])
  qed
qed

lemma events_out:
  assumes "well_formed s"
  shows "events counted_out s (fst (update s ds h w)) =
    (if mode s = LaneCounter
     then map fst (filter (\<lambda>p. crosses_out (split_after s w) (exit_after s h) (snd p))
                     (alive s ds h w))
     else [])"
proof -
  have fl: "flag_set counted_out (tracked_objects s) (fst p) = counted_out (snd p)"
    if "p \<in> set (alive s ds h w)" for p
    using association_phase_flags(2)[OF assms, of "fst p" "snd p" ds h w] alive_mem[OF that]
    by simp
  show ?thesis
  proof (cases "mode s = LaneCounter")
    case True
    have "filter (\<lambda>p. counted_out (recount (split_after s w) (entry_after s h) (exit_after s h) (snd p))
                 \<and> \<not> flag_set counted_out (tracked_objects s) (fst p)) (alive s ds h w)
        = filter (\<lambda>p. crosses_out (split_after s w) (exit_after s h) (snd p)) (alive s ds h w)"
      by (rule filter_cong[OF refl]) (auto simp: fl recount_def crosses_out_def)
    then show ?thesis using True
      by (simp add: events_def update_lane_counter[OF assms True] filter_map comp_def)
  next
    case False
    have "filter (\<lambda>p. counted_out (snd p) \<and> \<not> flag_set counted_out (tracked_objects s) (fst p))
            (alive s ds h w) = []"
      by (auto simp: filter_empty_conv fl)
    then show ?thesis using False
      by (cases "mode s") (simp_all add: events_def update_eagle_eye[OF assms] update_other[OF assms])
  qed
qed

lemma update_counts:
  assumes "well_formed s"
  shows "in_count (fst (update s ds h w))
           = in_count s + int (length (events counted_in s (fst (update s ds h w))))"
    "out_count (fst (update s ds h w))
           = out_count s + int (length (events counted_out s (fst (update s ds h w))))"
    "fst (snd (update s ds h w)) = in_count (fst (update s ds h w))"
    "fst (snd (snd (update s ds h w))) = out_count (fst (update s ds h w))"
  unfolding events_in[OF assms] events_out[OF assms]
  by (cases "mode s"; simp add: update_eagle_eye[OF assms] update_other[OF assms]
        update_lane_counter[OF assms] association_phase_fields)+

lemma update_sticky:
  assumes "well_formed s" "lookup (tracked_objects s) k = Some t"
    "lookup (tracked_objects (fst (update s ds h w))) k = Some t'"
  shows "(counted_in t \<longrightarrow> counted_in t') \<and> (counted_out t \<longrightarrow> counted_out t')"
proof -
  from association_phase_keeps[OF assms(1,2), of ds h w] obtain t2 where
    t2: "lookup (tracked_objects (fst (association_phase s ds h w))) k = Some t2"
    "same_marks t t2" by blast
  from assms(3) t2(1) have "t' = t2 \<or> t' = recount (split_after s w) (entry_after s h) (exit_after s h) t2"
    by (auto simp: update_lookup[OF assms(1)] alive_lookup[OF assms(1)] split: if_splits)
  with t2(2) show ?thesis by (auto simp: same_marks_def recount_def)
qed

lemma update_new_key:
  assumes "well_formed s" "lookup (tracked_objects s) k = None"
    "k \<in> set (keys (tracked_objects (fst (update s ds h w))))"
  shows "next_id s \<le> k"
proof -
  from assms(3) have "k \<in> set (keys (tracked_objects (fst (association_phase s ds h w))))"
    using alive_keys_subset[of s ds h w] by (auto simp: update_keys[OF assms(1)])
  then obtain t2 where "lookup (tracked_objects (fst (association_phase s ds h w))) k = Some t2"
    using lookup_None_iff by (cases "lookup (tracked_objects (fst (association_phase s ds h w))) k") auto
  from association_phase_creates[OF assms(1,2) this] show ?thesis by simp
qed

lemma events_mem:
  "k \<in> set (events flag s s') \<longleftrightarrow>
     (\<exists>t'. (k, t') \<in> set (tracked_objects s') \<and> flag t' \<and> \<not> flag_set flag (tracked_objects s) k)"
  by (force simp: events_def)

lemma events_distinct:
  "distinct (keys (tracked_objects s')) \<Longrightarrow> distinct (events flag s s')"
  unfolding events_def keys_def by (rule distinct_map_filter)

lemma events_pending:
  assumes "well_formed s"
  shows "set (events flag s (fst (update s ds h w))) \<subseteq> pending flag s"
proof
  fix k assume "k \<in> set (events flag s (fst (update s ds h w)))"
  then obtain t' where t': "(k, t') \<in> set (tracked_objects (fst (update s ds h w)))"
    "\<not> flag_set flag (tracked_objects s) k" by (auto simp: events_mem)
  then have key: "k \<in> set (keys (tracked_objects (fst (update s ds h w))))"
    by (force simp: keys_def)
  show "k \<in> pending flag s"
  proof (cases "lookup (tracked_objects s) k")
    case None
    from update_new_key[OF assms None key] show ?thesis by (simp add: pending_def)
  next
    case (Some t)
    with t'(2) show ?thesis by (simp add: pending_def flag_set_def)
  qed
qed

lemma pending_shrinks:
  assumes "well_formed s" "flag = counted_in \<or> flag = counted_out"
  shows "pending flag (fst (update s ds h w))
         \<subseteq> pending flag s - set (events flag s (fst (update s ds h w)))"
proof
  let ?s' = "fst (update s ds h w)"
  have wf': "well_formed ?s'" by (rule update_well_formed[OF assms(1)])
  then have dist: "distinct (keys (tracked_objects ?s'))" by (simp add: well_formed_def)
  fix k assume "k \<in> pending flag ?s'"
  then consider (fresh) "next_id ?s' \<le> k"
    | (unset) t' where "lookup (tracked_objects ?s') k = Some t'" "\<not> flag t'"
    by (auto simp: pending_def)
  then show "k \<in> pending flag s - set (events flag s ?s')"
  proof cases
    case fresh
    have "next_id s \<le> next_id ?s'"
      using association_phase_next_id[of s ds h w] by (simp add: update_next_id[OF assms(1)])
    with fresh have "k \<in> pending flag s" by (simp add: pending_def)
    moreover have "k \<notin> set (events flag s ?s')"
    proof
      assume "k \<in> set (events flag s ?s')"
      then have "k \<in> set (keys (tracked_objects ?s'))" by (force simp: events_mem keys_def)
      with wf' have "k < next_id ?s'" by (simp add: well_formed_def list_all_iff)
      with fresh show False by simp
    qed
    ultimately show ?thesis by simp
  next
    case unset
    have "k \<notin> set (events flag s ?s')"
    proof
      assume "k \<in> set (events flag s ?s')"
      then obtain t'' where "(k, t'') \<in> set (tracked_objects ?s')" "flag t''"
        by (auto simp: events_mem)
      with lookup_distinct[OF dist this(1)] unset show False by simp
    qed
    moreover have "k \<in> pending flag s"
    proof (cases "lookup (tracked_objects s) k")
      case None
      have "k \<in> set (keys (tracked_objects ?s'))"
        using unset(1) lookup_None_iff[of "tracked_objects ?s'" k] by auto
      from update_new_key[OF assms(1) None this] show ?thesis by (simp add: pending_def)
    next
      case (Some t)
      from update_sticky[OF assms(1) Some unset(1)] unset(2) assms(2) have "\<not> flag t" by auto
      with Some show ?thesis by (simp add: pending_def)
    qed
    ultimately show ?thesis by simp
  qed
qed

lemma events_run_once:
  assumes "well_formed s" "flag = counted_in \<or> flag = counted_out"
  shows "distinct (events_run flag s frames) \<and> set (events_run flag s frames) \<subseteq> pending flag s"
  using assms(1)
proof (induction frames arbitrary: s)
  case Nil
  then show ?case by simp
next
  case (Cons f frames)
  obtain ds h w where f: "f = (ds, h, w)" by (cases f)
  let ?s' = "fst (update s ds h w)"
  have wf': "well_formed ?s'" by (rule update_well_formed[OF Cons.prems])
  from Cons.IH[OF wf'] have ih: "distinct (events_run flag ?s' frames)"
    "set (events_run flag ?s' frames) \<subseteq> pending flag ?s'" by simp_all
  have d: "distinct (events flag s ?s')"
    using wf' by (simp add: events_distinct well_formed_def)
  have p: "set (events flag s ?s') \<subseteq> pending flag s" by (rule events_pending[OF Cons.prems])
  have sh: "pending flag ?s' \<subseteq> pending flag s - set (events flag s ?s')"
    by (rule pending_shrinks[OF Cons.prems assms(2)])
  show ?case unfolding f using ih d p sh by auto
qed

lemma run_counts:
  assumes "well_formed s"
  shows "in_count (run s frames) = in_count s + int (length (events_run counted_in s frames))
       \<and> out_count (run s frames) = out_count s + int (length (events_run counted_out s frames))"
  using assms
proof (induction frames arbitrary: s)
  case Nil
  then show ?case by simp
next
  case (Cons f frames)
  obtain ds h w where f: "f = (ds, h, w)" by (cases f)
  from Cons.IH[OF update_well_formed[OF Cons.prems], of ds h w]
    update_counts(1,2)[OF Cons.prems, of ds h w]
  show ?case by (simp add: f)
qed

lemma run_counts_mono:
  assumes "well_formed s"
  shows "in_count s \<le> in_count (run s frames) \<and> out_count s \<le> out_count (run s frames)"
  using assms
proof (induction frames arbitrary: s)
  case Nil
  then show ?case by simp
next
  case (Cons f frames)
  obtain ds h w where f: "f = (ds, h, w)" by (cases f)
  have "in_count s \<le> in_count (fst (update s ds h w))"
    "out_count s \<le> out_count (fst (update s ds h w))"
    using update_counts(1,2)[OF Cons.prems, of ds h w] by simp_all
  with Cons.IH[OF update_well_formed[OF Cons.prems], of ds h w] show ?case
    by (simp add: f)
qed

lemma exits_outpace_entries:
  "snd (snd (snd (update (init LaneCounter) [det_a, det_far] 480 640))) = - 1"
  by code_simp

lemma recount_geometry [simp]:
  "centroid (recount split entry_y exit_y t) = centroid t"
  "bottom_edge (recount split entry_y exit_y t) = bottom_edge t"
  "top_edge (recount split entry_y exit_y t) = top_edge t"
  "lane (recount split entry_y exit_y t) = (if fst (centroid t) < split then Enter else Exit)"
  by (simp_all add: recount_def bottom_edge_def top_edge_def)

lemma update_counts_live_tracks:
  assumes wf: "well_formed s" and m: "mode s = LaneCounter"
    and th: "lane_split_x (fst (update s ds h w)) = Some split"
      "entry_y_threshold (fst (update s ds h w)) = Some entry_y"
      "exit_y_threshold (fst (update s ds h w)) = Some exit_y"
  shows "list_all (\<lambda>p.
            lane (snd p) = (if fst (centroid (snd p)) < split then Enter else Exit)
            \<and> counted_in (snd p)
                = (flag_set counted_in (tracked_objects s) (fst p)
                   \<or> lane (snd p) = Enter \<and> bottom_edge (snd p) > entry_y)
            \<and> counted_out (snd p)
                = (flag_set counted_out (tracked_objects s) (fst p)
                   \<or> lane (snd p) = Exit \<and> top_edge (snd p) < exit_y))
          (tracked_objects (fst (update s ds h w)))"
    "in_count (fst (update s ds h w)) = in_count s
        + int (length (filter (\<lambda>p. lane (snd p) = Enter \<and> bottom_edge (snd p) > entry_y
                                   \<and> \<not> flag_set counted_in (tracked_objects s) (fst p))
                 (tracked_objects (fst (update s ds h w)))))"
    "out_count (fst (update s ds h w)) = out_count s
        + int (length (filter (\<lambda>p. lane (snd p) = Exit \<and> top_edge (snd p) < exit_y
                                   \<and> \<not> flag_set counted_out (tracked_objects s) (fst p))
                 (tracked_objects (fst (update s ds h w)))))"
proof -
  have sa: "split_after s w = split" "entry_after s h = entry_y" "exit_after s h = exit_y"
    using th m by (simp_all add: update_thresholds[OF wf])
  have fl: "flag_set counted_in (tracked_objects s) (fst p) = counted_in (snd p)
          \<and> flag_set counted_out (tracked_objects s) (fst p) = counted_out (snd p)"
    if "p \<in> set (alive s ds h w)" for p
    using association_phase_flags[OF wf, of "fst p" "snd p" ds h w] alive_mem[OF that] by simp
  show "list_all (\<lambda>p.
            lane (snd p) = (if fst (centroid (snd p)) < split then Enter else Exit)
            \<and> counted_in (snd p)
                = (flag_set counted_in (tracked_objects s) (fst p)
                   \<or> lane (snd p) = Enter \<and> bottom_edge (snd p) > entry_y)
            \<and> counted_out (snd p)
                = (flag_set counted_out (tracked_objects s) (fst p)
                   \<or> lane (snd p) = Exit \<and> top_edge (snd p) < exit_y))
          (tracked_objects (fst (update s ds h w)))"
    unfolding update_lane_counter[OF wf m] sa
    using fl by (auto simp: list_all_iff recount_def crosses_in_def crosses_out_def
        bottom_edge_def top_edge_def)
  have "filter (\<lambda>p. lane (recount split entry_y exit_y (snd p)) = Enter
                  \<and> bottom_edge (recount split entry_y exit_y (snd p)) > entry_y
                  \<and> \<not> flag_set counted_in (tracked_objects s) (fst p)) (alive s ds h w)
      = filter (\<lambda>p. crosses_in split entry_y (snd p)) (alive s ds h w)"
    by (rule filter_cong[OF refl]) (auto simp: fl crosses_in_def)
  then show "in_count (fst (update s ds h w)) = in_count s
        + int (length (filter (\<lambda>p. lane (snd p) = Enter \<and> bottom_edge (snd p) > entry_y
                                   \<and> \<not> flag_set counted_in (tracked_objects s) (fst p))
                 (tracked_objects (fst (update s ds h w)))))"
    unfolding update_lane_counter[OF wf m] sa
    by (simp add: filter_map comp_def)
  have "filter (\<lambda>p. lane (recount split entry_y exit_y (snd p)) = Exit
                  \<and> top_edge (recount split entry_y exit_y (snd p)) < exit_y
                  \<and> \<not> flag_set counted_out (tracked_objects s) (fst p)) (alive s ds h w)
      = filter (\<lambda>p. crosses_out split exit_y (snd p)) (alive s ds h w)"
    by (rule filter_cong[OF refl]) (auto simp: fl crosses_out_def)
  then show "out_count (fst (update s ds h w)) = out_count s
        + int (length (filter (\<lambda>p. lane (snd p) = Exit \<and> top_edge (snd p) < exit_y
                                   \<and> \<not> flag_set counted_out (tracked_objects s) (fst p))
                 (tracked_objects (fst (update s ds h w)))))"
    unfolding update_lane_counter[OF wf m] sa
    by (simp add: filter_map comp_def)
qed

subsection \<open>The claims\<close>

text \<open>
  C5: \<^verbatim>\<open>reset_counts\<close> sets both counters, the id allocator and the frame counter to 0 and
  empties the set of tracks, and leaves the lane split and the two thresholds as they
  were. It is a total function of the engine: there is no state in which it fails.
\<close>

theorem reset_counts_clears:
  "in_count (reset_counts s) = 0 \<and> out_count (reset_counts s) = 0
   \<and> tracked_objects (reset_counts s) = [] \<and> next_id (reset_counts s) = 0
   \<and> frame_id (reset_counts s) = 0
   \<and> lane_split_x (reset_counts s) = lane_split_x s
   \<and> entry_y_threshold (reset_counts s) = entry_y_threshold s
   \<and> exit_y_threshold (reset_counts s) = exit_y_threshold s"
  by (simp add: reset_counts_def)

text \<open>
  C3: one call of \<^verbatim>\<open>update\<close> on a well-formed engine whose staleness threshold is not
  negative, and one of the frame's person detections, with box \<open>(x1, y1, x2, y2)\<close>; \<open>s_d\<close>
  is the engine when the association loop reaches the detection and \<open>s_a\<close> the engine after
  the loop body, from which the loop goes on with the remaining detections. The
  detection's centroid \<open>c\<close> is \<open>((x1 + x2) div 2, (y1 + y2) div 2)\<close>, the distance of a
  track the sum of the squares of the coordinate differences of \<open>c\<close> and the track's
  centroid, and a candidate an active track whose distance is below \<^verbatim>\<open>max_dist_sq\<close>. If
  \<open>s_d\<close> holds a candidate, the detection is given the id of a candidate at least as near
  as every candidate and nearer than every candidate before it in iteration order; that
  track's bbox, centroid and last frame id are overwritten with the box, \<open>c\<close> and the
  current frame, every other track and the id allocator stay as they are. If it holds
  none, a new track is appended under the id \<^verbatim>\<open>next_id\<close>, which was not in use, and the
  allocator advances by one. Either way the track with that id is in the dictionary after
  the call, last seen in the current frame.
\<close>

theorem detection_matched_or_new:
  assumes wf: "well_formed s" and thr: "0 \<le> stale_frame_threshold s"
    and ds: "persons detections = pre @ (x1, y1, x2, y2, label) # post"
    and before: "associate (init_thresholds (s\<lparr> frame_id := frame_id s + 1 \<rparr>) h w) {} pre = (s_d, ids)"
    and step: "process_det s_d (x1, y1, x2, y2, label) = (s_a, k)"
    and c: "c = ((x1 + x2) div 2, (y1 + y2) div 2)"
    and dist: "dist = (\<lambda>t. (fst c - fst (centroid t))\<^sup>2 + (snd c - snd (centroid t))\<^sup>2)"
    and cand: "cand = (\<lambda>t. status t = Active \<and> dist t < max_dist_sq s)"
  shows "association_phase s detections h w = associate s_a (insert k ids) post
    \<and> (if \<exists>p \<in> set (tracked_objects s_d). cand (snd p)
        then \<exists>i t. i < length (tracked_objects s_d) \<and> tracked_objects s_d ! i = (k, t)
               \<and> cand t
               \<and> (\<forall>p \<in> set (tracked_objects s_d). cand (snd p) \<longrightarrow> dist t \<le> dist (snd p))
               \<and> (\<forall>p \<in> set (take i (tracked_objects s_d)). cand (snd p) \<longrightarrow> dist t < dist (snd p))
               \<and> keys (tracked_objects s_a) = keys (tracked_objects s_d)
               \<and> lookup (tracked_objects s_a) k
                   = Some (t\<lparr> bbox := (x1, y1, x2, y2), centroid := c,
                               last_frame_id := frame_id s + 1 \<rparr>)
               \<and> (\<forall>j. j \<noteq> k \<longrightarrow>
                     lookup (tracked_objects s_a) j = lookup (tracked_objects s_d) j)
               \<and> next_id s_a = next_id s_d
        else tracked_objects s_a
               = tracked_objects s_d
                 @ [(next_id s_d,
                     \<lparr> bbox = (x1, y1, x2, y2), centroid = c, lane = Unknown, status = Active,
                       counted_in = False, counted_out = False,
                       last_frame_id = frame_id s + 1 \<rparr>)]
             \<and> k = next_id s_d \<and> next_id s_d \<notin> set (keys (tracked_objects s_d))
             \<and> next_id s_a = next_id s_d + 1)
    \<and> (\<exists>t'. lookup (tracked_objects (fst (update s detections h w))) k = Some t'
              \<and> last_frame_id t' = frame_id s + 1)"
proof -
  let ?s1 = "init_thresholds (s\<lparr> frame_id := frame_id s + 1 \<rparr>) h w"
  let ?d = "(x1, y1, x2, y2, label)"
  have wf1: "well_formed ?s1" by (rule well_formed_start[OF wf])
  have sd: "s_d = fst (associate ?s1 {} pre)" using before by simp
  have wfd: "well_formed s_d" unfolding sd by (rule associate_well_formed[OF wf1])
  have fd: "frame_id s_d = frame_id s + 1" "max_dist_sq s_d = max_dist_sq s"
    unfolding sd using associate_fields[of ?s1 "{}" pre] by (simp_all add: init_thresholds_fields)
  have sa: "s_a = fst (process_det s_d ?d)" "k = snd (process_det s_d ?d)" using step by simp_all
  have wfa: "well_formed s_a" unfolding sa by (rule process_det_well_formed[OF wfd])
  have fa: "frame_id s_a = frame_id s + 1"
    unfolding sa using process_det_fields(7)[of s_d ?d] fd by simp
  have dc: "det_centroid ?d = c" "det_bbox ?d = (x1, y1, x2, y2)"
    by (simp_all add: det_centroid_def det_bbox_def c)
  have gate: "in_gate (max_dist_sq s) c t = cand t" for t
    by (simp add: in_gate_def cand dist distance_sq_def)
  have dsq: "distance_sq c (centroid t) = dist t" for t
    by (simp add: dist distance_sq_def)
  have phase: "association_phase s detections h w = associate s_a (insert k ids) post"
    using before step
    by (simp add: association_phase_def ds associate_append del: process_det.simps)
  have rule: "if \<exists>p \<in> set (tracked_objects s_d). cand (snd p)
        then \<exists>i t. i < length (tracked_objects s_d) \<and> tracked_objects s_d ! i = (k, t)
               \<and> cand t
               \<and> (\<forall>p \<in> set (tracked_objects s_d). cand (snd p) \<longrightarrow> dist t \<le> dist (snd p))
               \<and> (\<forall>p \<in> set (take i (tracked_objects s_d)). cand (snd p) \<longrightarrow> dist t < dist (snd p))
               \<and> keys (tracked_objects s_a) = keys (tracked_objects s_d)
               \<and> lookup (tracked_objects s_a) k
                   = Some (t\<lparr> bbox := (x1, y1, x2, y2), centroid := c,
                               last_frame_id := frame_id s + 1 \<rparr>)
               \<and> (\<forall>j. j \<noteq> k \<longrightarrow>
                     lookup (tracked_objects s_a) j = lookup (tracked_objects s_d) j)
               \<and> next_id s_a = next_id s_d
        else tracked_objects s_a
               = tracked_objects s_d
                 @ [(next_id s_d,
                     \<lparr> bbox = (x1, y1, x2, y2), centroid = c, lane = Unknown, status = Active,
                       counted_in = False, counted_out = False,
                       last_frame_id = frame_id s + 1 \<rparr>)]
             \<and> k = next_id s_d \<and> next_id s_d \<notin> set (keys (tracked_objects s_d))
             \<and> next_id s_a = next_id s_d + 1"
  proof (cases "\<exists>p \<in> set (tracked_objects s_d). cand (snd p)")
    case True
    then have "list_ex (\<lambda>p. in_gate (max_dist_sq s_d) (det_centroid ?d) (snd p)) (tracked_objects s_d)"
      by (simp add: list_ex_iff dc fd gate)
    with process_det_rule[OF wfd, of ?d] obtain i t where it:
      "nearest_at (max_dist_sq s_d) (det_centroid ?d) (tracked_objects s_d) i"
      "tracked_objects s_d ! i = (snd (process_det s_d ?d), t)"
      "keys (tracked_objects (fst (process_det s_d ?d))) = keys (tracked_objects s_d)"
      "lookup (tracked_objects (fst (process_det s_d ?d))) (snd (process_det s_d ?d))
         = Some (t\<lparr> bbox := det_bbox ?d, centroid := det_centroid ?d,
                     last_frame_id := frame_id s_d \<rparr>)"
      "\<forall>j. j \<noteq> snd (process_det s_d ?d) \<longrightarrow>
           lookup (tracked_objects (fst (process_det s_d ?d))) j = lookup (tracked_objects s_d) j"
      "next_id (fst (process_det s_d ?d)) = next_id s_d"
      by (auto simp del: process_det.simps)
    from it(1,2) have near: "i < length (tracked_objects s_d)" "cand t"
      "\<forall>p \<in> set (tracked_objects s_d). cand (snd p) \<longrightarrow> dist t \<le> dist (snd p)"
      "\<forall>p \<in> set (take i (tracked_objects s_d)). cand (snd p) \<longrightarrow> dist t < dist (snd p)"
      by (simp_all add: nearest_at_def list_all_iff dc fd gate dsq del: process_det.simps)
    have "i < length (tracked_objects s_d) \<and> tracked_objects s_d ! i = (k, t)
               \<and> cand t
               \<and> (\<forall>p \<in> set (tracked_objects s_d). cand (snd p) \<longrightarrow> dist t \<le> dist (snd p))
               \<and> (\<forall>p \<in> set (take i (tracked_objects s_d)). cand (snd p) \<longrightarrow> dist t < dist (snd p))
               \<and> keys (tracked_objects s_a) = keys (tracked_objects s_d)
               \<and> lookup (tracked_objects s_a) k
                   = Some (t\<lparr> bbox := (x1, y1, x2, y2), centroid := c,
                               last_frame_id := frame_id s + 1 \<rparr>)
               \<and> (\<forall>j. j \<noteq> k \<longrightarrow>
                     lookup (tracked_objects s_a) j = lookup (tracked_objects s_d) j)
               \<and> next_id s_a = next_id s_d"
      using near it(2-6) unfolding sa[symmetric] dc fd by simp
    then show ?thesis using True by (simp only: if_True) blast
  next
    case False
    then have "\<not> list_ex (\<lambda>p. in_gate (max_dist_sq s_d) (det_centroid ?d) (snd p)) (tracked_objects s_d)"
      by (simp add: list_ex_iff dc fd gate)
    with process_det_rule[OF wfd, of ?d]
    have "tracked_objects (fst (process_det s_d ?d))
            = tracked_objects s_d
              @ [(next_id s_d, new_track (det_bbox ?d) (det_centroid ?d) (frame_id s_d))]
          \<and> snd (process_det s_d ?d) = next_id s_d
          \<and> next_id s_d \<notin> set (keys (tracked_objects s_d))
          \<and> next_id (fst (process_det s_d ?d)) = next_id s_d + 1"
      by (simp del: process_det.simps)
    then have "tracked_objects s_a
               = tracked_objects s_d
                 @ [(next_id s_d,
                     \<lparr> bbox = (x1, y1, x2, y2), centroid = c, lane = Unknown, status = Active,
                       counted_in = False, counted_out = False,
                       last_frame_id = frame_id s + 1 \<rparr>)]
             \<and> k = next_id s_d \<and> next_id s_d \<notin> set (keys (tracked_objects s_d))
             \<and> next_id s_a = next_id s_d + 1"
      unfolding sa[symmetric] dc fd new_track_def by simp
    then show ?thesis using False by simp
  qed
  have "\<exists>ta. lookup (tracked_objects s_a) k = Some ta \<and> last_frame_id ta = frame_id s + 1"
    using process_det_lookup_id[OF wfd, of ?d] fd
    unfolding sa[symmetric]
    by (cases "lookup (tracked_objects s_d) k") (auto simp: new_track_def simp del: process_det.simps)
  then obtain ta where ta: "lookup (tracked_objects s_a) k = Some ta"
    "last_frame_id ta = frame_id s + 1" by blast
  from associate_keeps[OF wfa ta(1), of "insert k ids" post] ta(2) fa
  obtain t2 where t2: "lookup (tracked_objects (fst (association_phase s detections h w))) k = Some t2"
    "last_frame_id t2 = frame_id s + 1"
    unfolding phase by (cases "k \<in> set (assigned_ids s_a post)") auto
  have "\<not> is_stale (fst (association_phase s detections h w)) t2"
    using t2(2) thr by (simp add: is_stale_def association_phase_fields)
  with t2(1) have "lookup (alive s detections h w) k = Some t2"
    by (simp add: alive_lookup[OF wf])
  then have "\<exists>t'. lookup (tracked_objects (fst (update s detections h w))) k = Some t'
              \<and> last_frame_id t' = frame_id s + 1"
    using t2(2) by (simp add: update_lookup[OF wf] recount_def)
  with phase rule show ?thesis by blast
qed

theorem detection_matched_or_new_witness:
  "well_formed engine_two \<and> 0 \<le> stale_frame_threshold engine_two
   \<and> persons [det_dog, det_far, det_b] = [det_far] @ (100, 80, 120, 120, ''person'') # []
   \<and> snd (process_det
           (fst (associate
                  (init_thresholds (engine_two\<lparr> frame_id := frame_id engine_two + 1 \<rparr>) 480 640)
                  {} [det_far]))
           (100, 80, 120, 120, ''person'')) = 0
   \<and> (\<exists>t'. lookup (tracked_objects (fst (update engine_two [det_dog, det_far, det_b] 480 640))) 0
               = Some t'
           \<and> last_frame_id t' = 2)"
proof -
  let ?s1 = "init_thresholds (engine_two\<lparr> frame_id := frame_id engine_two + 1 \<rparr>) 480 640"
  let ?sd = "fst (associate ?s1 {} [det_far])"
  let ?d = "(100, 80, 120, 120, ''person'') :: detection"
  have wf: "well_formed engine_two"
    by code_simp
  have thr: "0 \<le> stale_frame_threshold engine_two"
    by code_simp
  have ds: "persons [det_dog, det_far, det_b] = [det_far] @ ?d # []"
    by code_simp
  have before: "associate ?s1 {} [det_far] = (?sd, snd (associate ?s1 {} [det_far]))"
    by simp
  have step: "process_det ?sd ?d = (fst (process_det ?sd ?d), snd (process_det ?sd ?d))"
    by simp
  have k: "snd (process_det ?sd ?d) = 0"
    by code_simp
  have fr: "frame_id engine_two = 1"
    by code_simp
  from detection_matched_or_new [OF wf thr ds before step refl refl refl]
  have "\<exists>t'. lookup (tracked_objects (fst (update engine_two [det_dog, det_far, det_b] 480 640)))
              (snd (process_det ?sd ?d)) = Some t'
          \<and> last_frame_id t' = frame_id engine_two + 1"
    by blast
  then show ?thesis using wf thr ds k fr by simp
qed

text \<open>
  C6: in Eagle-Eye mode the total a call returns is the number of detections of the
  current frame labelled \<^verbatim>\<open>'person'\<close>, whatever the engine holds.
\<close>

theorem eagle_eye_total:
  assumes "mode s = EagleEye"
  shows "snd (snd (snd (update s detections h w)))
         = int (length (filter (\<lambda>d. snd (snd (snd (snd d))) = ''person'') detections))"
  using assms
  by (simp add: update_def counting_def Let_def remove_stale_fields association_phase_fields
      persons_def)

theorem eagle_eye_total_witness:
  "mode engine_eagle = EagleEye
   \<and> snd (snd (snd (update engine_eagle [det_dog, det_b, det_far, det_dog] 480 640))) = 2"
  using eagle_eye_total [of engine_eagle "[det_dog, det_b, det_far, det_dog]" 480 640]
  by (simp add: engine_eagle_def det_dog_def det_b_def det_far_def)




text \<open>
  C4: one call on a well-formed engine. Of the tracks in the dictionary after the
  association loop, exactly those stay whose gap between the frame counter of this call and
  the frame they were last seen in is not above the staleness threshold; nothing is added
  after the loop. A track that no detection of this frame was matched to and whose gap is
  not above the threshold is still in the dictionary after the call, last seen in the same
  frame as before. The threshold is 30 in a new engine and no call changes it.
\<close>

theorem stale_removal:
  assumes "well_formed s"
  shows "(\<forall>k t. lookup (tracked_objects (fst (association_phase s detections h w))) k = Some t \<longrightarrow>
            (k \<in> set (keys (tracked_objects (fst (update s detections h w))))
             \<longleftrightarrow> \<not> (frame_id s + 1 - last_frame_id t > stale_frame_threshold s)))
     \<and> set (keys (tracked_objects (fst (update s detections h w))))
         \<subseteq> set (keys (tracked_objects (fst (association_phase s detections h w))))
     \<and> (\<forall>k t. lookup (tracked_objects s) k = Some t
              \<and> k \<notin> snd (association_phase s detections h w)
              \<and> \<not> (frame_id s + 1 - last_frame_id t > stale_frame_threshold s)
           \<longrightarrow> (\<exists>t'. lookup (tracked_objects (fst (update s detections h w))) k = Some t'
                      \<and> last_frame_id t' = last_frame_id t))
     \<and> stale_frame_threshold (fst (update s detections h w)) = stale_frame_threshold s
     \<and> stale_frame_threshold (init m) = 30"
proof -
  let ?s2 = "fst (association_phase s detections h w)"
  let ?s' = "fst (update s detections h w)"
  have stale: "is_stale ?s2 t \<longleftrightarrow> frame_id s + 1 - last_frame_id t > stale_frame_threshold s" for t
    by (simp add: is_stale_def association_phase_fields)
  have a: "k \<in> set (keys (tracked_objects ?s'))
             \<longleftrightarrow> \<not> (frame_id s + 1 - last_frame_id t > stale_frame_threshold s)"
    if "lookup (tracked_objects ?s2) k = Some t" for k t
  proof -
    have "k \<in> set (keys (tracked_objects ?s')) \<longleftrightarrow> lookup (alive s detections h w) k \<noteq> None"
      by (simp add: update_keys[OF assms] lookup_None_iff)
    also have "\<dots> \<longleftrightarrow> \<not> is_stale ?s2 t"
      using that by (simp add: alive_lookup[OF assms])
    finally show ?thesis by (simp add: stale)
  qed
  have b: "set (keys (tracked_objects ?s')) \<subseteq> set (keys (tracked_objects ?s2))"
    by (simp add: update_keys[OF assms] alive_keys_subset)
  have c: "\<exists>t'. lookup (tracked_objects ?s') k = Some t' \<and> last_frame_id t' = last_frame_id t"
    if "lookup (tracked_objects s) k = Some t" "k \<notin> snd (association_phase s detections h w)"
      "\<not> (frame_id s + 1 - last_frame_id t > stale_frame_threshold s)" for k t
  proof -
    from association_phase_keeps[OF assms that(1), of detections h w] that(2)
    have "lookup (tracked_objects ?s2) k = Some t" by auto
    then have "lookup (alive s detections h w) k = Some t"
      using that(3) by (simp add: alive_lookup[OF assms] stale)
    then show ?thesis
      by (simp add: update_lookup[OF assms] recount_def)
  qed
  show ?thesis using a b c
    by (simp add: update_fields[OF assms] init_def)
qed


theorem stale_removal_witness:
  "well_formed engine_two
   \<and> (\<exists>t'. lookup (tracked_objects (fst (update engine_two [det_b] 480 640))) 1 = Some t'
           \<and> last_frame_id t' = 1)
   \<and> frame_id (fst (update engine_two [det_b] 480 640)) = 2"
proof -
  have wf: "well_formed engine_two"
    by code_simp
  have lk: "lookup (tracked_objects engine_two) 1 = Some (snd (tracked_objects engine_two ! 1))"
    by code_simp
  have un: "1 \<notin> snd (association_phase engine_two [det_b] 480 640)"
    by code_simp
  have gap: "\<not> (frame_id engine_two + 1 - last_frame_id (snd (tracked_objects engine_two ! 1))
                > stale_frame_threshold engine_two)"
    by code_simp
  have seen: "last_frame_id (snd (tracked_objects engine_two ! 1)) = 1"
    by code_simp
  have fr: "frame_id engine_two = 1"
    by code_simp
  from stale_removal [OF wf, of "[det_b]" 480 640] lk un gap
  have "\<exists>t'. lookup (tracked_objects (fst (update engine_two [det_b] 480 640))) 1 = Some t'
           \<and> last_frame_id t' = last_frame_id (snd (tracked_objects engine_two ! 1))"
    by blast
  then show ?thesis using wf seen fr by (simp add: update_fields [OF wf])
qed

text \<open>
  C8: a well-formed engine in Lane Counter mode whose three boundary attributes are still
  unset, run over a first frame of height \<open>h\<close> and width \<open>w\<close> and any further frames.
  At the end the lane split is \<open>w div 2\<close>, the entry threshold \<open>9 * h div 10\<close> and the
  exit threshold \<open>h div 10\<close>, all from the first frame, whatever the dimensions of the
  later frames; and every track in the dictionary has the lane its centroid gives: \<open>Enter\<close>
  when the centroid's x lies strictly left of the lane split, \<open>Exit\<close> otherwise.
\<close>

theorem boundary_lazy_and_lanes:
  assumes "well_formed s" "mode s = LaneCounter"
    "lane_split_x s = None" "entry_y_threshold s = None" "exit_y_threshold s = None"
  shows "lane_split_x (run s ((detections, h, w) # frames)) = Some (int w div 2)
    \<and> entry_y_threshold (run s ((detections, h, w) # frames)) = Some (9 * int h div 10)
    \<and> exit_y_threshold (run s ((detections, h, w) # frames)) = Some (int h div 10)
    \<and> list_all (\<lambda>p. lane (snd p) = (if fst (centroid (snd p)) < int w div 2 then Enter else Exit))
         (tracked_objects (run s ((detections, h, w) # frames)))"
proof -
  let ?s' = "fst (update s detections h w)"
  have wf': "well_formed ?s'" by (rule update_well_formed[OF assms(1)])
  have m': "mode ?s' = LaneCounter" using assms(2) by (simp add: update_fields[OF assms(1)])
  have sa: "split_after s w = int w div 2" "entry_after s h = 9 * int h div 10"
    "exit_after s h = int h div 10"
    using assms(3,4,5) by (simp_all add: split_after_def entry_after_def exit_after_def)
  have th: "lane_split_x ?s' = Some (int w div 2)" "entry_y_threshold ?s' = Some (9 * int h div 10)"
    "exit_y_threshold ?s' = Some (int h div 10)"
    using assms(2) sa by (simp_all add: update_thresholds[OF assms(1)])
  show ?thesis
  proof (cases frames)
    case Nil
    with th update_lanes[OF assms(1,2), of w detections h] sa show ?thesis by simp
  next
    case (Cons g gs)
    with run_boundary_held[OF wf' m' th, of frames] show ?thesis by simp
  qed
qed

theorem boundary_lazy_and_lanes_witness:
  "well_formed (init LaneCounter) \<and> mode (init LaneCounter) = LaneCounter
   \<and> lane_split_x (init LaneCounter) = None \<and> entry_y_threshold (init LaneCounter) = None
   \<and> exit_y_threshold (init LaneCounter) = None
   \<and> lane_split_x (run (init LaneCounter) [([det_a, det_far], 480, 640), ([det_b], 720, 1280)]) = Some 320
   \<and> entry_y_threshold (run (init LaneCounter) [([det_a, det_far], 480, 640), ([det_b], 720, 1280)]) = Some 432
   \<and> exit_y_threshold (run (init LaneCounter) [([det_a, det_far], 480, 640), ([det_b], 720, 1280)]) = Some 48"
proof -
  have wf: "well_formed (init LaneCounter)"
    by (rule init_well_formed)
  have i: "mode (init LaneCounter) = LaneCounter" "lane_split_x (init LaneCounter) = None"
    "entry_y_threshold (init LaneCounter) = None" "exit_y_threshold (init LaneCounter) = None"
    by (simp_all add: init_def)
  from boundary_lazy_and_lanes [OF wf i, of "[det_a, det_far]" 480 640 "[([det_b], 720, 1280)]"]
  show ?thesis using wf i by simp
qed

text \<open>
  C9: on a well-formed engine, over any run of calls neither counter decreases. One call
  adds to \<^verbatim>\<open>in_count\<close> the number of entry events it commits and to \<^verbatim>\<open>out_count\<close> the
  number of exit events, one per event. In Lane Counter mode the total it returns is
  \<^verbatim>\<open>in_count - out_count\<close> of the engine after the call, which is not clamped: a first
  frame with one exit crossing and no entry returns -1.
\<close>

theorem counts_monotone_net_unclamped:
  assumes "well_formed s"
  shows "in_count s \<le> in_count (run s frames) \<and> out_count s \<le> out_count (run s frames)
    \<and> in_count (fst (update s detections h w))
        = in_count s + int (length (events counted_in s (fst (update s detections h w))))
    \<and> out_count (fst (update s detections h w))
        = out_count s + int (length (events counted_out s (fst (update s detections h w))))
    \<and> (mode s = LaneCounter \<longrightarrow>
          snd (snd (snd (update s detections h w)))
            = in_count (fst (update s detections h w)) - out_count (fst (update s detections h w)))
    \<and> snd (snd (snd (update (init LaneCounter) [det_a, det_far] 480 640))) = - 1"
proof -
  have net: "snd (snd (snd (update s detections h w)))
            = in_count (fst (update s detections h w)) - out_count (fst (update s detections h w))"
    if "mode s = LaneCounter"
    by (simp add: update_lane_counter[OF assms that])
  show ?thesis
    using run_counts_mono[OF assms, of frames] update_counts(1,2)[OF assms, of detections h w]
      net exits_outpace_entries
    by simp
qed

theorem counts_monotone_net_unclamped_witness:
  "well_formed engine_two
   \<and> in_count engine_two \<le> in_count (run engine_two [([det_b], 480, 640)])
   \<and> out_count (fst (update engine_two [det_b] 480 640))
        = 1 + int (length (events counted_out engine_two (fst (update engine_two [det_b] 480 640))))
   \<and> snd (snd (snd (update engine_two [det_b] 480 640)))
        = in_count (fst (update engine_two [det_b] 480 640))
          - out_count (fst (update engine_two [det_b] 480 640))"
proof -
  have wf: "well_formed engine_two"
    by code_simp
  have m: "mode engine_two = LaneCounter"
    by code_simp
  have oc: "out_count engine_two = 1"
    by code_simp
  from counts_monotone_net_unclamped [OF wf, of "[([det_b], 480, 640)]" "[det_b]" 480 640]
  show ?thesis using wf m oc by simp
qed

text \<open>
  C2: one call in Lane Counter mode on a well-formed engine, and runs of calls. After the
  call the three boundary attributes are set, and against these values every track of the
  dictionary has the lane its centroid gives; its \<^verbatim>\<open>counted_in\<close> is set precisely when it
  was set before the call or the lane is \<open>Enter\<close> and the bottom edge lies beyond the
  entry threshold, and \<^verbatim>\<open>in_count\<close> has grown by the number of tracks with lane \<open>Enter\<close>,
  bottom edge beyond the entry threshold and \<^verbatim>\<open>counted_in\<close> not set before the call, 1 for
  each; likewise \<^verbatim>\<open>counted_out\<close> and \<^verbatim>\<open>out_count\<close> with lane \<open>Exit\<close> and the top edge
  before the exit threshold. The body of the counting loop on one track does exactly this,
  and running it again on the track and counters it returns changes nothing. Over any run
  of calls no id commits an entry event twice, nor an exit event, and each counter grows by
  the number of its events: a track adds at most 1 to each counter as long as it lives.
\<close>

theorem crossing_counted_once:
  assumes "well_formed s"
  shows "(mode s = LaneCounter \<longrightarrow>
       (\<exists>sp en ex.
          lane_split_x (fst (update s detections h w)) = Some sp
          \<and> entry_y_threshold (fst (update s detections h w)) = Some en
          \<and> exit_y_threshold (fst (update s detections h w)) = Some ex
          \<and> list_all (\<lambda>p.
                lane (snd p) = (if fst (centroid (snd p)) < sp then Enter else Exit)
                \<and> counted_in (snd p)
                    = (flag_set counted_in (tracked_objects s) (fst p)
                       \<or> lane (snd p) = Enter \<and> bottom_edge (snd p) > en)
                \<and> counted_out (snd p)
                    = (flag_set counted_out (tracked_objects s) (fst p)
                       \<or> lane (snd p) = Exit \<and> top_edge (snd p) < ex))
              (tracked_objects (fst (update s detections h w)))
          \<and> in_count (fst (update s detections h w)) = in_count s
              + int (length (filter (\<lambda>p. lane (snd p) = Enter \<and> bottom_edge (snd p) > en
                                         \<and> \<not> flag_set counted_in (tracked_objects s) (fst p))
                       (tracked_objects (fst (update s detections h w)))))
          \<and> out_count (fst (update s detections h w)) = out_count s
              + int (length (filter (\<lambda>p. lane (snd p) = Exit \<and> top_edge (snd p) < ex
                                         \<and> \<not> flag_set counted_out (tracked_objects s) (fst p))
                       (tracked_objects (fst (update s detections h w)))))
          \<and> fst (snd (update s detections h w)) = in_count (fst (update s detections h w))
          \<and> fst (snd (snd (update s detections h w)))
              = out_count (fst (update s detections h w))))
    \<and> lane (fst (count_track split entry_y exit_y t (ic, oc)))
            = (if fst (centroid t) < split then Enter else Exit)
    \<and> (if lane (fst (count_track split entry_y exit_y t (ic, oc))) = Enter
            \<and> bottom_edge t > entry_y \<and> \<not> counted_in t
        then fst (snd (count_track split entry_y exit_y t (ic, oc))) = ic + 1
             \<and> counted_in (fst (count_track split entry_y exit_y t (ic, oc)))
        else fst (snd (count_track split entry_y exit_y t (ic, oc))) = ic
             \<and> counted_in (fst (count_track split entry_y exit_y t (ic, oc))) = counted_in t)
    \<and> (if lane (fst (count_track split entry_y exit_y t (ic, oc))) = Exit
            \<and> top_edge t < exit_y \<and> \<not> counted_out t
        then snd (snd (count_track split entry_y exit_y t (ic, oc))) = oc + 1
             \<and> counted_out (fst (count_track split entry_y exit_y t (ic, oc)))
        else snd (snd (count_track split entry_y exit_y t (ic, oc))) = oc
             \<and> counted_out (fst (count_track split entry_y exit_y t (ic, oc))) = counted_out t)
    \<and> count_track split entry_y exit_y (fst (count_track split entry_y exit_y t (ic, oc)))
          (snd (count_track split entry_y exit_y t (ic, oc)))
        = count_track split entry_y exit_y t (ic, oc)
    \<and> distinct (events_run counted_in s frames)
    \<and> distinct (events_run counted_out s frames)
    \<and> in_count (run s frames) = in_count s + int (length (events_run counted_in s frames))
    \<and> out_count (run s frames) = out_count s + int (length (events_run counted_out s frames))"
proof -
  have body: "lane (fst (count_track split entry_y exit_y t (ic, oc)))
            = (if fst (centroid t) < split then Enter else Exit)"
    by (simp add: count_track_eq)
  have entry: "if lane (fst (count_track split entry_y exit_y t (ic, oc))) = Enter
            \<and> bottom_edge t > entry_y \<and> \<not> counted_in t
        then fst (snd (count_track split entry_y exit_y t (ic, oc))) = ic + 1
             \<and> counted_in (fst (count_track split entry_y exit_y t (ic, oc)))
        else fst (snd (count_track split entry_y exit_y t (ic, oc))) = ic
             \<and> counted_in (fst (count_track split entry_y exit_y t (ic, oc))) = counted_in t"
    by (auto simp: count_track_eq crosses_in_def)
  have exit: "if lane (fst (count_track split entry_y exit_y t (ic, oc))) = Exit
            \<and> top_edge t < exit_y \<and> \<not> counted_out t
        then snd (snd (count_track split entry_y exit_y t (ic, oc))) = oc + 1
             \<and> counted_out (fst (count_track split entry_y exit_y t (ic, oc)))
        else snd (snd (count_track split entry_y exit_y t (ic, oc))) = oc
             \<and> counted_out (fst (count_track split entry_y exit_y t (ic, oc))) = counted_out t"
    by (auto simp: count_track_eq crosses_out_def)
  have again: "count_track split entry_y exit_y (fst (count_track split entry_y exit_y t (ic, oc)))
          (snd (count_track split entry_y exit_y t (ic, oc)))
        = count_track split entry_y exit_y t (ic, oc)"
    by (simp add: count_track_eq crosses_in_def crosses_out_def top_edge_def bottom_edge_def)
  have call: "\<exists>sp en ex.
          lane_split_x (fst (update s detections h w)) = Some sp
          \<and> entry_y_threshold (fst (update s detections h w)) = Some en
          \<and> exit_y_threshold (fst (update s detections h w)) = Some ex
          \<and> list_all (\<lambda>p.
                lane (snd p) = (if fst (centroid (snd p)) < sp then Enter else Exit)
                \<and> counted_in (snd p)
                    = (flag_set counted_in (tracked_objects s) (fst p)
                       \<or> lane (snd p) = Enter \<and> bottom_edge (snd p) > en)
                \<and> counted_out (snd p)
                    = (flag_set counted_out (tracked_objects s) (fst p)
                       \<or> lane (snd p) = Exit \<and> top_edge (snd p) < ex))
              (tracked_objects (fst (update s detections h w)))
          \<and> in_count (fst (update s detections h w)) = in_count s
              + int (length (filter (\<lambda>p. lane (snd p) = Enter \<and> bottom_edge (snd p) > en
                                         \<and> \<not> flag_set counted_in (tracked_objects s) (fst p))
                       (tracked_objects (fst (update s detections h w)))))
          \<and> out_count (fst (update s detections h w)) = out_count s
              + int (length (filter (\<lambda>p. lane (snd p) = Exit \<and> top_edge (snd p) < ex
                                         \<and> \<not> flag_set counted_out (tracked_objects s) (fst p))
                       (tracked_objects (fst (update s detections h w)))))
          \<and> fst (snd (update s detections h w)) = in_count (fst (update s detections h w))
          \<and> fst (snd (snd (update s detections h w)))
              = out_count (fst (update s detections h w))"
    if m: "mode s = LaneCounter"
  proof -
    have th: "lane_split_x (fst (update s detections h w)) = Some (split_after s w)"
      "entry_y_threshold (fst (update s detections h w)) = Some (entry_after s h)"
      "exit_y_threshold (fst (update s detections h w)) = Some (exit_after s h)"
      using m by (simp_all add: update_thresholds[OF assms])
    show ?thesis
      using th update_counts_live_tracks[OF assms m th] update_counts(3,4)[OF assms, of detections h w]
      by blast
  qed
  have once: "distinct (events_run counted_in s frames)" "distinct (events_run counted_out s frames)"
    using events_run_once[OF assms, of counted_in frames] events_run_once[OF assms, of counted_out frames]
    by simp_all
  show ?thesis
    using call body entry exit again once run_counts[OF assms, of frames] by presburger
qed

theorem crossing_counted_once_witness:
  "well_formed (init LaneCounter) \<and> mode (init LaneCounter) = LaneCounter
   \<and> entry_y_threshold (fst (update (init LaneCounter) [det_c] 480 640)) = Some 432
   \<and> in_count (fst (update (init LaneCounter) [det_c] 480 640))
       = int (length (filter (\<lambda>p. lane (snd p) = Enter \<and> bottom_edge (snd p) > 432
                \<and> \<not> flag_set counted_in (tracked_objects (init LaneCounter)) (fst p))
              (tracked_objects (fst (update (init LaneCounter) [det_c] 480 640)))))
   \<and> in_count (fst (update (init LaneCounter) [det_c] 480 640)) = 1
   \<and> events_run counted_in (init LaneCounter) crossing_frames = [0]
   \<and> distinct (events_run counted_in (init LaneCounter) crossing_frames)
   \<and> in_count (run (init LaneCounter) crossing_frames) = 1"
proof -
  have wf: "well_formed (init LaneCounter)"
    by (rule init_well_formed)
  have m: "mode (init LaneCounter) = LaneCounter"
    by (simp add: init_def)
  have en: "entry_y_threshold (fst (update (init LaneCounter) [det_c] 480 640)) = Some 432"
    by code_simp
  have one: "in_count (fst (update (init LaneCounter) [det_c] 480 640)) = 1"
    by code_simp
  have ev: "events_run counted_in (init LaneCounter) crossing_frames = [0]"
    by code_simp
  have ic: "in_count (init LaneCounter) = 0"
    by (simp add: init_def)
  note inst = crossing_counted_once [OF wf, where frames = crossing_frames
      and detections = "[det_c]" and h = 480 and w = 640]
  from inst m obtain sp en' ex where
    "entry_y_threshold (fst (update (init LaneCounter) [det_c] 480 640)) = Some en'"
    "in_count (fst (update (init LaneCounter) [det_c] 480 640)) = in_count (init LaneCounter)
       + int (length (filter (\<lambda>p. lane (snd p) = Enter \<and> bottom_edge (snd p) > en'
                \<and> \<not> flag_set counted_in (tracked_objects (init LaneCounter)) (fst p))
              (tracked_objects (fst (update (init LaneCounter) [det_c] 480 640)))))"
    by blast
  with en ic have call: "in_count (fst (update (init LaneCounter) [det_c] 480 640))
       = int (length (filter (\<lambda>p. lane (snd p) = Enter \<and> bottom_edge (snd p) > 432
                \<and> \<not> flag_set counted_in (tracked_objects (init LaneCounter)) (fst p))
              (tracked_objects (fst (update (init LaneCounter) [det_c] 480 640)))))"
    by simp
  from inst
  have "distinct (events_run counted_in (init LaneCounter) crossing_frames)
    \<and> in_count (run (init LaneCounter) crossing_frames)
        = in_count (init LaneCounter)
          + int (length (events_run counted_in (init LaneCounter) crossing_frames))"
    by blast
  then show ?thesis using wf m en one call ev ic by simp
qed

text \<open>
  C1: the assignment of a frame's person detections to tracks is to be one-to-one, each
  detection's candidates being the tracks no earlier detection of the frame was assigned
  to. The association loop does not do this: its inner loop runs over every track of the
  dictionary, and the set \<^verbatim>\<open>updated_tracked_ids\<close>, which records the tracks already
  assigned, is never read. In a first frame of 480 by 640 with two persons 30 pixels
  apart, both beyond the entry line, the second detection is matched to the track the
  first one has just created: both get id 0, one track remains, and the call returns one
  entry and a total of 1 for two persons.
\<close>

theorem two_persons_one_track:
  "persons [det_c, det_e] = [det_c, det_e]
   \<and> distance_sq (det_centroid det_e) (det_centroid det_c) = 900
   \<and> update_assignment (init LaneCounter) [det_c, det_e] 480 640 = [0, 0]
   \<and> \<not> distinct (update_assignment (init LaneCounter) [det_c, det_e] 480 640)
   \<and> keys (tracked_objects (fst (update (init LaneCounter) [det_c, det_e] 480 640))) = [0]
   \<and> snd (update (init LaneCounter) [det_c, det_e] 480 640) = (1, 0, 1)"
  by code_simp



end
